theory Spec2Isabelle
  imports Complex_Main "HOL-Library.Multiset"
begin

section \<open>Dates and timestamps\<close>

text \<open>
  A \<^verbatim>\<open>datetime.date\<close> is its proleptic Gregorian ordinal (\<^verbatim>\<open>date.toordinal()\<close>):
  0001-01-01 is day 1 and 9999-12-31 is day 3652059. A pandas \<^verbatim>\<open>Timestamp\<close> is its
  count of nanoseconds since 1970-01-01T00:00 (\<^verbatim>\<open>Timestamp.value\<close>). A reading's value
  is a float64 that is only ever compared with the constant -9999, and is a real here.
\<close>

type_synonym date = int
type_synonym timestamp = int
type_synonym reading = "timestamp \<times> real"
type_synonym series = "reading list"
type_synonym window = "date \<times> date"
type_synonym trace = "window list"

definition is_leap :: "int \<Rightarrow> bool" where
  "is_leap year = (year mod 4 = 0 \<and> (year mod 100 \<noteq> 0 \<or> year mod 400 = 0))"

definition days_before_year :: "int \<Rightarrow> int" where
  "days_before_year year =
     (let y = year - 1 in y * 365 + y div 4 - y div 100 + y div 400)"

definition days_before_month :: "int \<Rightarrow> int \<Rightarrow> int" where
  "days_before_month year month =
     [0, 0, 31, 59, 90, 120, 151, 181, 212, 243, 273, 304, 334] ! nat month
       + (if month > 2 \<and> is_leap year then 1 else 0)"

text \<open>\<^verbatim>\<open>date(year, month, day)\<close> for a valid calendar date; the source only builds
  January 1 and December 31 of years from 1900 on.\<close>

definition ymd :: "int \<Rightarrow> int \<Rightarrow> int \<Rightarrow> date" where
  "ymd year month day = days_before_year year + days_before_month year month + day"

text \<open>\<^verbatim>\<open>d.year\<close>, as \<^verbatim>\<open>datetime._ord2ymd\<close> computes it.\<close>

definition year_of :: "date \<Rightarrow> int" where
  "year_of d =
     (let n = d - 1;
          n400 = n div 146097; n = n mod 146097;
          n100 = n div 36524; n = n mod 36524;
          n4 = n div 1461; n = n mod 1461;
          n1 = n div 365;
          year = n400 * 400 + 1 + n100 * 100 + n4 * 4 + n1
      in if n1 = 4 \<or> n100 = 4 then year - 1 else year)"

definition date_min :: date where "date_min = 1"
definition date_max :: date where "date_max = 3652059"

text \<open>\<^verbatim>\<open>Timestamp.date()\<close>: the calendar day a timestamp falls on.\<close>

definition ts_date :: "timestamp \<Rightarrow> date" where
  "ts_date t = 719163 + t div 86400000000000"

section \<open>Errors\<close>

text \<open>
  The exceptions the code can raise: a transport or JSON failure inside
  \<^verbatim>\<open>fetch_cdec\<close>, the \<^verbatim>\<open>RuntimeError("No data found ...")\<close> of
  \<^verbatim>\<open>find_earliest_date\<close>, the \<^verbatim>\<open>OverflowError\<close> of date arithmetic that leaves
  0001-01-01 .. 9999-12-31, and the \<^verbatim>\<open>ValueError\<close> of \<^verbatim>\<open>pd.merge\<close> on key columns of
  different dtypes.
\<close>

datatype error = URLError | JSONDecodeError | RuntimeError_no_data | OverflowError | ValueError

text \<open>\<^verbatim>\<open>d + timedelta(days=n)\<close>.\<close>

definition date_add :: "date \<Rightarrow> int \<Rightarrow> error + date" where
  "date_add d n =
     (if date_min \<le> d + n \<and> d + n \<le> date_max then Inr (d + n) else Inl OverflowError)"

section \<open>The remote service and pandas\<close>

text \<open>
  What lies outside the repository is a parameter.
  \<^item> The HTTP request with the JSON decoding of its answer: one pair of raw date field and
    raw value field per record; JSON \<^verbatim>\<open>null\<close> and \<^verbatim>\<open>[]\<close> are the empty list.
  \<^item> \<^verbatim>\<open>pd.to_datetime(column, errors="coerce")\<close>: it reads a whole column, and what a field
    parses to may depend on the column it stands in (the format is taken from the column's
    first fields), so the parser gets the column and the field. \<open>None\<close> is NaT.
  \<^item> \<^verbatim>\<open>pd.to_numeric(column, errors="coerce")\<close>, field by field. \<open>None\<close> is NaN.
  \<^item> The sorting algorithm behind \<^verbatim>\<open>sort_values\<close>. pandas sorts with numpy's default
    argsort, which puts the keys in ascending order and promises nothing about the order
    of equal keys. So the algorithm is any function from a key column to a permutation of
    its positions that makes the keys ascending.
\<close>

typedef argsorter =
  "{f :: timestamp list \<Rightarrow> nat list.
      \<forall>ks. mset (f ks) = mset [0..<length ks] \<and> sorted (map (\<lambda>i. ks ! i) (f ks))}"
  morphisms argsort_of Abs_argsorter
proof
  show "(\<lambda>ks. sort_key (\<lambda>i. ks ! i) [0..<length ks])
          \<in> {f. \<forall>ks. mset (f ks) = mset [0..<length ks] \<and> sorted (map (\<lambda>i. ks ! i) (f ks))}"
    by simp
qed

setup_lifting type_definition_argsorter

record ('d, 'v) world =
  urlopen_json :: "string \<Rightarrow> int \<Rightarrow> string \<Rightarrow> date \<Rightarrow> date \<Rightarrow> error + ('d \<times> 'v) list"
  to_datetime :: "'d list \<Rightarrow> 'd \<Rightarrow> timestamp option"
  to_numeric :: "'v \<Rightarrow> real option"
  argsort :: argsorter

text \<open>\<^verbatim>\<open>df.sort_values("datetime")\<close>: the rows taken in the order the argsort of the
  timestamp column gives.\<close>

definition sort_values :: "('d, 'v) world \<Rightarrow> (timestamp \<times> 'a) list \<Rightarrow> (timestamp \<times> 'a) list" where
  "sort_values W df = map (\<lambda>i. df ! i) (argsort_of (argsort W) (map fst df))"

section \<open>fetch_cdec\<close>

text \<open>
  The source passes the two dates as ISO strings, \<^verbatim>\<open>start\<close> and \<^verbatim>\<open>end\<close>; here they are the
  dates themselves, \<open>start\<close> and \<open>stop\<close>. A payload that is empty returns the empty frame at
  once; otherwise both columns are coerced, the rows with a NaT or NaN are dropped, then the
  rows with the value -9999, and the rest is sorted by timestamp.
\<close>

definition fetch_cdec ::
  "('d, 'v) world \<Rightarrow> string \<Rightarrow> int \<Rightarrow> string \<Rightarrow> date \<Rightarrow> date \<Rightarrow> error + series" where
  "fetch_cdec W station_id sensor_num dur_code start stop =
     (case urlopen_json W station_id sensor_num dur_code start stop of
        Inl e \<Rightarrow> Inl e
      | Inr data \<Rightarrow>
          if data = [] then Inr []
          else
            let df = map (\<lambda>(d, v). (to_datetime W (map fst data) d, to_numeric W v)) data;
                df = filter (\<lambda>(t, x). t \<noteq> None \<and> x \<noteq> None) df;
                df = filter (\<lambda>(t, x). x \<noteq> Some (- 9999)) df
            in Inr (sort_values W (map (\<lambda>(t, x). (the t, the x)) df)))"

subsection \<open>The cleaning pipeline as the specification words it\<close>

text \<open>The four steps in their order: (a) parse the timestamp and discard what does not
  parse, (b) the same for the value, (c) discard the sentinel, (d) sort by timestamp.\<close>

definition parse_timestamp_step :: "('d \<Rightarrow> timestamp option) \<Rightarrow> ('d \<times> 'v) list \<Rightarrow> (timestamp \<times> 'v) list" where
  "parse_timestamp_step p rows = List.map_filter (\<lambda>(d, v). map_option (\<lambda>t. (t, v)) (p d)) rows"

definition parse_value_step :: "('v \<Rightarrow> real option) \<Rightarrow> (timestamp \<times> 'v) list \<Rightarrow> series" where
  "parse_value_step p rows = List.map_filter (\<lambda>(t, v). map_option (\<lambda>x. (t, x)) (p v)) rows"

definition drop_sentinel_step :: "series \<Rightarrow> series" where
  "drop_sentinel_step rows = filter (\<lambda>(t, x). x \<noteq> - 9999) rows"

definition cleaned :: "('d, 'v) world \<Rightarrow> ('d \<times> 'v) list \<Rightarrow> series" where
  "cleaned W data =
     drop_sentinel_step
       (parse_value_step (to_numeric W) (parse_timestamp_step (to_datetime W (map fst data)) data))"

definition spec_pipeline :: "('d, 'v) world \<Rightarrow> ('d \<times> 'v) list \<Rightarrow> series" where
  "spec_pipeline W data = sort_values W (cleaned W data)"

section \<open>find_earliest_date\<close>

text \<open>
  Every function that talks to the service threads the list of windows requested so far,
  oldest first, and returns it extended. \<^verbatim>\<open>df["datetime"].min().date()\<close> of a non-empty
  frame is \<open>min_date\<close>.
\<close>

definition min_date :: "series \<Rightarrow> date" where
  "min_date df = ts_date (Min (set (map fst df)))"

definition probe_years :: "int list" where
  "probe_years = [1900, 1930, 1950, 1970, 1980, 1990, 2000, 2010]"

text \<open>The \<^verbatim>\<open>for y in probe_years\<close> loop: \<open>Inr None\<close> when no anchor year has data.\<close>

fun probe ::
  "('d, 'v) world \<Rightarrow> string \<Rightarrow> int \<Rightarrow> string \<Rightarrow> int list \<Rightarrow> trace \<Rightarrow> (error + date option) \<times> trace" where
  "probe W station_id sensor_num dur_code [] tr = (Inr None, tr)"
| "probe W station_id sensor_num dur_code (y # ys) tr =
     (let start = ymd y 1 1; stop = ymd y 12 31 in
      case fetch_cdec W station_id sensor_num dur_code start stop of
        Inl e \<Rightarrow> (Inl e, tr @ [(start, stop)])
      | Inr df \<Rightarrow>
          if df \<noteq> [] then (Inr (Some (min_date df)), tr @ [(start, stop)])
          else probe W station_id sensor_num dur_code ys (tr @ [(start, stop)]))"

text \<open>The \<^verbatim>\<open>while y > 1900\<close> loop.\<close>

function narrow ::
  "('d, 'v) world \<Rightarrow> string \<Rightarrow> int \<Rightarrow> string \<Rightarrow> int \<Rightarrow> date \<Rightarrow> trace \<Rightarrow> (error + date) \<times> trace" where
  "narrow W station_id sensor_num dur_code y earliest_found tr =
     (if y > 1900 then
        (let prev_start = ymd (y - 1) 1 1; prev_end = ymd (y - 1) 12 31 in
         case fetch_cdec W station_id sensor_num dur_code prev_start prev_end of
           Inl e \<Rightarrow> (Inl e, tr @ [(prev_start, prev_end)])
         | Inr df_prev \<Rightarrow>
             if df_prev = [] then (Inr earliest_found, tr @ [(prev_start, prev_end)])
             else narrow W station_id sensor_num dur_code (y - 1) (min_date df_prev)
                    (tr @ [(prev_start, prev_end)]))
      else (Inr earliest_found, tr))"
  by pat_completeness auto
termination
  by (relation "measure (\<lambda>(W, station_id, sensor_num, dur_code, y, earliest_found, tr). nat (y - 1900))")
     auto

declare narrow.simps [simp del]

text \<open>\<open>today\<close> is \<^verbatim>\<open>date.today()\<close>.\<close>

definition find_earliest_date ::
  "('d, 'v) world \<Rightarrow> string \<Rightarrow> int \<Rightarrow> string \<Rightarrow> date \<Rightarrow> (error + date) \<times> trace" where
  "find_earliest_date W station_id sensor_num dur_code today =
     (case probe W station_id sensor_num dur_code probe_years [] of
        (Inl e, tr) \<Rightarrow> (Inl e, tr)
      | (Inr None, tr) \<Rightarrow>
          (case fetch_cdec W station_id sensor_num dur_code (ymd 2000 1 1) today of
             Inl e \<Rightarrow> (Inl e, tr @ [(ymd 2000 1 1, today)])
           | Inr df \<Rightarrow>
               if df = [] then (Inl RuntimeError_no_data, tr @ [(ymd 2000 1 1, today)])
               else (Inr (min_date df), tr @ [(ymd 2000 1 1, today)]))
      | (Inr (Some earliest_found), tr) \<Rightarrow>
          narrow W station_id sensor_num dur_code (year_of earliest_found) earliest_found tr)"

section \<open>fetch_all_in_chunks\<close>

text \<open>
  The \<^verbatim>\<open>while cur <= end_date\<close> loop, with the frames collected so far. It need not end
  (with \<^verbatim>\<open>chunk_days = -1\<close> the cursor never moves), so not returning is \<open>None\<close>. The
  progress line printed for each window is left out; the trace records the window.
\<close>

partial_function (option) chunk_loop ::
  "('d, 'v) world \<Rightarrow> string \<Rightarrow> int \<Rightarrow> string \<Rightarrow> date \<Rightarrow> int \<Rightarrow> date \<Rightarrow> series list \<Rightarrow> trace
     \<Rightarrow> ((error + series list) \<times> trace) option" where
  "chunk_loop W station_id sensor_num dur_code end_date chunk_days cur frames tr =
     (if cur \<le> end_date then
        (case date_add cur chunk_days of
           Inl e \<Rightarrow> Some (Inl e, tr)
         | Inr d \<Rightarrow>
             (let chunk_end = min d end_date in
              case fetch_cdec W station_id sensor_num dur_code cur chunk_end of
                Inl e \<Rightarrow> Some (Inl e, tr @ [(cur, chunk_end)])
              | Inr df \<Rightarrow>
                  (case date_add chunk_end 1 of
                     Inl e \<Rightarrow> Some (Inl e, tr @ [(cur, chunk_end)])
                   | Inr cur' \<Rightarrow>
                       chunk_loop W station_id sensor_num dur_code end_date chunk_days cur'
                         (frames @ [df]) (tr @ [(cur, chunk_end)]))))
      else Some (Inr frames, tr))"

declare chunk_loop.simps [code]

text \<open>\<^verbatim>\<open>drop_duplicates(subset=["datetime"])\<close>: the first row of every timestamp stays.\<close>

fun drop_duplicates :: "series \<Rightarrow> series" where
  "drop_duplicates [] = []"
| "drop_duplicates (r # rs) = r # drop_duplicates (filter (\<lambda>r'. fst r' \<noteq> fst r) rs)"

text \<open>The lines after the loop: concatenate, drop duplicates, sort.\<close>

definition merge_frames :: "('d, 'v) world \<Rightarrow> series list \<Rightarrow> series" where
  "merge_frames W frames =
     (if frames = [] then [] else sort_values W (drop_duplicates (concat frames)))"

definition fetch_all_in_chunks ::
  "('d, 'v) world \<Rightarrow> string \<Rightarrow> int \<Rightarrow> string \<Rightarrow> date \<Rightarrow> date \<Rightarrow> int
     \<Rightarrow> ((error + series) \<times> trace) option" where
  "fetch_all_in_chunks W station_id sensor_num dur_code start_date end_date chunk_days =
     (case chunk_loop W station_id sensor_num dur_code end_date chunk_days start_date [] [] of
        None \<Rightarrow> None
      | Some (Inl e, tr) \<Rightarrow> Some (Inl e, tr)
      | Some (Inr frames, tr) \<Rightarrow> Some (Inr (merge_frames W frames), tr))"

section \<open>export_station_all_time\<close>

text \<open>
  The dtype of the \<^verbatim>\<open>datetime\<close> column of a collected frame. \<^verbatim>\<open>fetch_cdec\<close> builds the
  frame of an empty payload as \<^verbatim>\<open>pd.DataFrame(columns=["datetime", "value"])\<close>, whose
  columns are of dtype object, and so does \<^verbatim>\<open>fetch_all_in_chunks\<close> when it fetched no
  window; every other frame has a \<^verbatim>\<open>datetime64\<close> column from \<^verbatim>\<open>pd.to_datetime\<close>.
  \<^verbatim>\<open>pd.concat\<close> gives an object column as soon as one of its frames has one (pandas 3;
  earlier versions left empty frames out of the choice of the dtype).
\<close>

datatype dtype = Datetime64 | Object

definition collected_dtype ::
  "('d, 'v) world \<Rightarrow> string \<Rightarrow> int \<Rightarrow> string \<Rightarrow> trace \<Rightarrow> dtype" where
  "collected_dtype W station_id sensor_num dur_code tr =
     (if tr = [] \<or> list_ex (\<lambda>w. urlopen_json W station_id sensor_num dur_code (fst w) (snd w) = Inr []) tr
      then Object else Datetime64)"

text \<open>
  \<^verbatim>\<open>pd.merge(stage, flow, on="datetime", how="outer")\<close> gives one block of rows per key of
  the union of both key sets, in ascending key order; within a block every left row of the
  key meets every right row of the key, and a side without the key leaves its column empty
  (NaN, here \<open>None\<close>). The value columns are \<^verbatim>\<open>stage_ft\<close> and \<^verbatim>\<open>flow_cfs\<close>, the second and
  third component of a combined row.
\<close>

type_synonym combined_row = "timestamp \<times> real option \<times> real option"

definition merge_outer :: "series \<Rightarrow> series \<Rightarrow> combined_row list" where
  "merge_outer stage flow =
     concat (map (\<lambda>t.
        let ls = map snd (filter (\<lambda>r. fst r = t) stage);
            rs = map snd (filter (\<lambda>r. fst r = t) flow)
        in if rs = [] then map (\<lambda>l. (t, Some l, None)) ls
           else if ls = [] then map (\<lambda>r. (t, None, Some r)) rs
           else concat (map (\<lambda>l. map (\<lambda>r. (t, Some l, Some r)) rs) ls))
       (sort (remdups (map fst stage @ map fst flow))))"

text \<open>
  The join of \<^verbatim>\<open>export_station_all_time\<close> with the sort that follows it. \<^verbatim>\<open>pd.merge\<close>
  refuses key columns of different dtypes with a \<^verbatim>\<open>ValueError\<close>.
\<close>

definition combine ::
  "('d, 'v) world \<Rightarrow> dtype \<Rightarrow> series \<Rightarrow> dtype \<Rightarrow> series \<Rightarrow> error + combined_row list" where
  "combine W stage_dtype stage flow_dtype flow =
     (if stage_dtype \<noteq> flow_dtype then Inl ValueError
      else Inr (sort_values W (merge_outer stage flow)))"

text \<open>The whole export; what it returns is what it writes to the three CSV files. The lines
  it prints are left out.\<close>

definition export_station_all_time ::
  "('d, 'v) world \<Rightarrow> string \<Rightarrow> date \<Rightarrow> (error + combined_row list \<times> series \<times> series) option" where
  "export_station_all_time W station_id today =
     (case find_earliest_date W station_id 1 ''E'' today of
        (Inl e, tr) \<Rightarrow> Some (Inl e)
      | (Inr earliest_stage, tr) \<Rightarrow>
     (case find_earliest_date W station_id 20 ''E'' today of
        (Inl e, tr) \<Rightarrow> Some (Inl e)
      | (Inr earliest_flow, tr) \<Rightarrow>
     (let start_date = min earliest_stage earliest_flow in
      case fetch_all_in_chunks W station_id 1 ''E'' start_date today 365 of
        None \<Rightarrow> None
      | Some (Inl e, tr) \<Rightarrow> Some (Inl e)
      | Some (Inr stage, stage_tr) \<Rightarrow>
     (case fetch_all_in_chunks W station_id 20 ''E'' start_date today 365 of
        None \<Rightarrow> None
      | Some (Inl e, tr) \<Rightarrow> Some (Inl e)
      | Some (Inr flow, flow_tr) \<Rightarrow>
     (case combine W (collected_dtype W station_id 1 ''E'' stage_tr) stage
                     (collected_dtype W station_id 20 ''E'' flow_tr) flow of
        Inl e \<Rightarrow> Some (Inl e)
      | Inr combined \<Rightarrow> Some (Inr (combined, stage, flow)))))))"

section \<open>Notions used in the statements\<close>

text \<open>
  The windows the loop asks for when nothing fails, for a non-negative \<open>chunk_days\<close>:
  the cursor starts a window, the window stops \<open>chunk_days\<close> days later or at
  \<open>end_date\<close>, and the next cursor is the day after the stop.
\<close>

function chunk_windows :: "date \<Rightarrow> int \<Rightarrow> date \<Rightarrow> window list" where
  "chunk_windows end_date chunk_days cur =
     (if cur \<le> end_date \<and> 0 \<le> chunk_days then
        (cur, min (cur + chunk_days) end_date)
          # chunk_windows end_date chunk_days (min (cur + chunk_days) end_date + 1)
      else [])"
  by pat_completeness auto
termination
  by (relation "measure (\<lambda>(end_date, chunk_days, cur). nat (end_date - cur + 1))") auto

declare chunk_windows.simps [simp del]

text \<open>The frames belong to the windows: each is what \<open>fetch_cdec\<close> returned for its window.\<close>

definition fetched ::
  "('d, 'v) world \<Rightarrow> string \<Rightarrow> int \<Rightarrow> string \<Rightarrow> window list \<Rightarrow> series list \<Rightarrow> bool" where
  "fetched W station_id sensor_num dur_code ws frames =
     list_all2 (\<lambda>w df. fetch_cdec W station_id sensor_num dur_code (fst w) (snd w) = Inr df) ws frames"

text \<open>The window of a whole calendar year, and a service whose answers stay inside the
  window asked for: every reading \<open>fetch_cdec\<close> returns is dated from start to stop.\<close>

definition year_window :: "int \<Rightarrow> window" where
  "year_window y = (ymd y 1 1, ymd y 12 31)"

definition answers_within :: "('d, 'v) world \<Rightarrow> string \<Rightarrow> int \<Rightarrow> string \<Rightarrow> bool" where
  "answers_within W station_id sensor_num dur_code =
     (\<forall>start stop df. fetch_cdec W station_id sensor_num dur_code start stop = Inr df \<longrightarrow>
        (\<forall>r \<in> set df. start \<le> ts_date (fst r) \<and> ts_date (fst r) \<le> stop))"

text \<open>
  A station and sensor whose readings are the Series \<open>readings\<close>, fetched exactly: whatever
  window is asked for, \<open>fetch_cdec\<close> returns the readings dated inside it, all of them and
  nothing else.
\<close>

definition dated_within :: "date \<Rightarrow> date \<Rightarrow> timestamp \<Rightarrow> bool" where
  "dated_within start stop t = (start \<le> ts_date t \<and> ts_date t \<le> stop)"

definition answers_exactly ::
  "('d, 'v) world \<Rightarrow> string \<Rightarrow> int \<Rightarrow> string \<Rightarrow> series \<Rightarrow> bool" where
  "answers_exactly W station_id sensor_num dur_code readings =
     (\<forall>start stop. \<exists>df. fetch_cdec W station_id sensor_num dur_code start stop = Inr df
        \<and> mset df = mset (filter (\<lambda>r. dated_within start stop (fst r)) readings))"

section \<open>Services used as examples\<close>

text \<open>
  In the examples a raw date field is an optional timestamp and a raw value field an
  optional number, \<open>None\<close> standing for text that does not parse, and a field parses the same
  in every column. \<open>ts_at d ns\<close> is the timestamp \<open>ns\<close> nanoseconds after midnight of day
  \<open>d\<close>.
\<close>

definition ts_at :: "date \<Rightarrow> int \<Rightarrow> timestamp" where
  "ts_at d ns = (d - 719163) * 86400000000000 + ns"

text \<open>
  Two sorting algorithms. The first keeps equal keys in the order they came in. The second
  does so for fewer than 17 keys and returns equal keys in the opposite order from 17 keys
  on: one of the orders an unstable sort may give.
\<close>

lift_definition stable_argsort :: argsorter is
  "\<lambda>ks. sort_key (\<lambda>i. ks ! i) [0..<length ks]"
  by simp


text \<open>A service that answers every request with the same six records.\<close>

definition constant_world :: "(timestamp option, real option) world" where
  "constant_world =
     \<lparr> urlopen_json = (\<lambda>station_id sensor_num dur_code start stop.
          Inr [(Some 30, Some 5), (None, Some 1), (Some 10, None),
               (Some 20, Some (- 9999)), (Some 20, Some 7), (Some 20, Some 8)]),
       to_datetime = (\<lambda>column d. d),
       to_numeric = (\<lambda>v. v),
       argsort = stable_argsort \<rparr>"

text \<open>A service with one list of records behind it, answering each window with the records
  dated inside it, in the order of the list; with the sorting algorithm given, or the first.\<close>

definition dataset_world_with ::
  "argsorter \<Rightarrow> (timestamp option \<times> real option) list \<Rightarrow> (timestamp option, real option) world" where
  "dataset_world_with algorithm records =
     \<lparr> urlopen_json = (\<lambda>station_id sensor_num dur_code start stop.
          Inr (filter (\<lambda>(d, v). case d of None \<Rightarrow> False
                                | Some t \<Rightarrow> start \<le> ts_date t \<and> ts_date t \<le> stop) records)),
       to_datetime = (\<lambda>column d. d),
       to_numeric = (\<lambda>v. v),
       argsort = algorithm \<rparr>"

definition dataset_world ::
  "(timestamp option \<times> real option) list \<Rightarrow> (timestamp option, real option) world" where
  "dataset_world records = dataset_world_with stable_argsort records"

text \<open>The readings among the records of such a service.\<close>

definition dataset_readings :: "(timestamp option \<times> real option) list \<Rightarrow> series" where
  "dataset_readings records =
     List.map_filter
       (\<lambda>(d, v). case d of None \<Rightarrow> None
                  | Some t \<Rightarrow> (case v of None \<Rightarrow> None
                               | Some x \<Rightarrow> if x \<noteq> - 9999 then Some (t, x) else None))
       records"

text \<open>
  Records of early 2020: one mid-January, a sentinel on January 31, two with the same
  timestamp on February 1, one without a date, one on March 1 and one on March 2.
\<close>

definition lch_2020 :: "(timestamp option \<times> real option) list" where
  "lch_2020 =
     [(Some (ts_at (ymd 2020 3 1) 0), Some 8),
      (Some (ts_at (ymd 2020 1 15) 0), Some 5),
      (Some (ts_at (ymd 2020 1 31) 3600000000000), Some (- 9999)),
      (Some (ts_at (ymd 2020 2 1) 0), Some 6),
      (Some (ts_at (ymd 2020 2 1) 0), Some 7),
      (None, Some 3),
      (Some (ts_at (ymd 2020 3 2) 0), Some 9)]"

text \<open>One reading on June 1 of every year from 1900 to 1970.\<close>

definition yearly_1900_1970 :: "(timestamp option \<times> real option) list" where
  "yearly_1900_1970 = map (\<lambda>y. (Some (ts_at (ymd y 6 1) 0), Some 1)) [1900..1970]"

text \<open>Readings in 2008, 2009 and 2010 only; and a single reading in 2005.\<close>

definition since_2008 :: "(timestamp option \<times> real option) list" where
  "since_2008 =
     [(Some (ts_at (ymd 2010 3 15) 0), Some 4),
      (Some (ts_at (ymd 2009 7 1) 0), Some 3),
      (Some (ts_at (ymd 2008 11 20) 0), Some 2),
      (Some (ts_at (ymd 2008 12 24) 0), Some 1)]"

definition only_2005 :: "(timestamp option \<times> real option) list" where
  "only_2005 = [(Some (ts_at (ymd 2005 7 4) 0), Some 12)]"

text \<open>
  A service that answers the window of 1900 with a reading of 1950-06-01, the window of
  1949 with a reading of 1960-03-01, and every other window with nothing.
\<close>

definition stray_world :: "(timestamp option, real option) world" where
  "stray_world =
     \<lparr> urlopen_json = (\<lambda>station_id sensor_num dur_code start stop.
          if start = ymd 1900 1 1 then Inr [(Some (ts_at (ymd 1950 6 1) 0), Some 1)]
          else if start = ymd 1949 1 1 then Inr [(Some (ts_at (ymd 1960 3 1) 0), Some 1)]
          else Inr []),
       to_datetime = (\<lambda>column d. d),
       to_numeric = (\<lambda>v. v),
       argsort = stable_argsort \<rparr>"





text \<open>
  A station with two sensors. Stage (sensor 1) has readings in 2010 only; flow (sensor 20)
  has readings in 2010 and in 2011.
\<close>

definition stage_gap_world :: "(timestamp option, real option) world" where
  "stage_gap_world =
     \<lparr> urlopen_json = (\<lambda>station_id sensor_num dur_code start stop.
          Inr (filter (\<lambda>(d, v). case d of None \<Rightarrow> False
                                | Some t \<Rightarrow> start \<le> ts_date t \<and> ts_date t \<le> stop)
                 (if sensor_num = 1
                  then [(Some (ts_at (ymd 2010 3 15) 0), Some 5)]
                  else [(Some (ts_at (ymd 2010 5 1) 0), Some 100),
                        (Some (ts_at (ymd 2011 8 1) 0), Some 120)]))),
       to_datetime = (\<lambda>column d. d),
       to_numeric = (\<lambda>v. v),
       argsort = stable_argsort \<rparr>"

section \<open>Calendar facts\<close>

lemma div_step: "0 < k \<Longrightarrow> (y::int) div k - (y - 1) div k = (if y mod k = 0 then 1 else 0)"
proof -
  assume k: "0 < k"
  define q where "q = y div k"
  define r where "r = y mod k"
  have y: "y = k * q + r" and r: "0 \<le> r" "r < k"
    using k by (simp_all add: q_def r_def)
  show ?thesis
  proof (cases "r = 0")
    case True
    have "(y - 1) div k = q - 1"
      by (rule int_div_pos_eq[where r = "k - 1"]) (use y True k in \<open>auto simp: algebra_simps\<close>)
    then show ?thesis using True by (simp add: q_def[symmetric] r_def[symmetric])
  next
    case False
    have "(y - 1) div k = q"
      by (rule int_div_pos_eq[where r = "r - 1"]) (use y False r in \<open>auto simp: algebra_simps\<close>)
    then show ?thesis using False by (simp add: q_def[symmetric] r_def[symmetric])
  qed
qed

lemma mod_100_4: "(y::int) mod 100 = 0 \<Longrightarrow> y mod 4 = 0"
proof -
  assume "y mod 100 = 0"
  then have "100 dvd y" by (simp add: dvd_eq_mod_eq_0)
  moreover have "(4::int) dvd 100" by simp
  ultimately have "4 dvd y" by (rule dvd_trans[rotated])
  then show ?thesis by (simp add: dvd_eq_mod_eq_0)
qed

lemma mod_400_100: "(y::int) mod 400 = 0 \<Longrightarrow> y mod 100 = 0"
proof -
  assume "y mod 400 = 0"
  then have "400 dvd y" by (simp add: dvd_eq_mod_eq_0)
  moreover have "(100::int) dvd 400" by simp
  ultimately have "100 dvd y" by (rule dvd_trans[rotated])
  then show ?thesis by (simp add: dvd_eq_mod_eq_0)
qed

lemma days_before_year_Suc:
  "days_before_year (y + 1) = days_before_year y + 365 + (if is_leap y then 1 else 0)"
proof -
  define q4 where "q4 = (y - 1) div 4"
  define q100 where "q100 = (y - 1) div 100"
  define q400 where "q400 = (y - 1) div 400"
  define i4 :: int where "i4 = (if y mod 4 = 0 then 1 else 0)"
  define i100 :: int where "i100 = (if y mod 100 = 0 then 1 else 0)"
  define i400 :: int where "i400 = (if y mod 400 = 0 then 1 else 0)"
  have s4: "y div 4 = q4 + i4"
    using div_step[of 4 y] unfolding q4_def i4_def by linarith
  have s100: "y div 100 = q100 + i100"
    using div_step[of 100 y] unfolding q100_def i100_def by linarith
  have s400: "y div 400 = q400 + i400"
    using div_step[of 400 y] unfolding q400_def i400_def by linarith
  have lhs: "days_before_year (y + 1) = y * 365 + (q4 + i4) - (q100 + i100) + (q400 + i400)"
    unfolding days_before_year_def Let_def add_diff_cancel_right' s4 s100 s400 ..
  have rhs: "days_before_year y = (y - 1) * 365 + q4 - q100 + q400"
    unfolding days_before_year_def Let_def q4_def q100_def q400_def ..
  have leap: "(if is_leap y then 1 else 0) = i4 - i100 + i400"
    using mod_100_4[of y] mod_400_100[of y]
    unfolding is_leap_def i4_def i100_def i400_def
    by (cases "y mod 4 = 0"; cases "y mod 100 = 0"; cases "y mod 400 = 0") simp_all
  have "(y - 1) * 365 = y * 365 - 365" by (simp only: left_diff_distrib mult_1)
  with lhs rhs leap show ?thesis by linarith
qed

lemma days_before_year_mono: "y \<le> y' \<Longrightarrow> days_before_year y \<le> days_before_year y'"
proof (induction "nat (y' - y)" arbitrary: y')
  case 0
  then show ?case by simp
next
  case (Suc n)
  then have "n = nat ((y' - 1) - y)" "y \<le> y' - 1" by auto
  from Suc(1)[OF this] have "days_before_year y \<le> days_before_year (y' - 1)" .
  also have "\<dots> \<le> days_before_year y'"
    using days_before_year_Suc[of "y' - 1"] by simp
  finally show ?case .
qed

lemma days_before_year_years:
  assumes "0 \<le> b" "b \<le> 3" "0 \<le> c" "c \<le> 24" "0 \<le> e" "e \<le> 3"
    and y: "y = 400 * a + 100 * b + 4 * c + e + 1"
  shows "days_before_year y = 146097 * a + 36524 * b + 1461 * c + 365 * e"
proof -
  let ?Y = "400 * a + 100 * b + 4 * c + e"
  have d4: "?Y div 4 = 100 * a + 25 * b + c"
    by (rule int_div_pos_eq[where r = e]) (use assms in auto)
  have d100: "?Y div 100 = 4 * a + b"
    by (rule int_div_pos_eq[where r = "4 * c + e"]) (use assms in auto)
  have d400: "?Y div 400 = a"
    by (rule int_div_pos_eq[where r = "100 * b + 4 * c + e"]) (use assms in auto)
  show ?thesis
    unfolding y by (simp add: days_before_year_def Let_def d4 d100 d400)
qed

lemma year_of_bounds:
  "days_before_year (year_of d) < d \<and> d \<le> days_before_year (year_of d + 1)"
proof -
  define n where "n = d - 1"
  define a where "a = n div 146097"
  define r1 where "r1 = n mod 146097"
  define b where "b = r1 div 36524"
  define r2 where "r2 = r1 mod 36524"
  define c where "c = r2 div 1461"
  define r3 where "r3 = r2 mod 1461"
  define e where "e = r3 div 365"
  define r4 where "r4 = r3 mod 365"
  have n: "n = 146097 * a + r1" and r1: "0 \<le> r1" "r1 < 146097"
    by (simp_all add: a_def r1_def)
  have r1': "r1 = 36524 * b + r2" and r2: "0 \<le> r2" "r2 < 36524"
    by (simp_all add: b_def r2_def)
  have r2': "r2 = 1461 * c + r3" and r3: "0 \<le> r3" "r3 < 1461"
    by (simp_all add: c_def r3_def)
  have r3': "r3 = 365 * e + r4" and r4: "0 \<le> r4" "r4 < 365"
    by (simp_all add: e_def r4_def)
  have b: "0 \<le> b" "b \<le> 4" using r1 r1' r2 by linarith+
  have c: "0 \<le> c" "c \<le> 24" using r2 r2' r3 by linarith+
  have e: "0 \<le> e" "e \<le> 4" using r3 r3' r4 by linarith+
  have yo: "year_of d = (if e = 4 \<or> b = 4 then 400 * a + 100 * b + 4 * c + e
                         else 400 * a + 100 * b + 4 * c + e + 1)"
    unfolding year_of_def Let_def n_def[symmetric] a_def[symmetric] r1_def[symmetric]
      b_def[symmetric] r2_def[symmetric] c_def[symmetric] r3_def[symmetric] e_def[symmetric]
    by simp
  have d: "d = 146097 * a + 36524 * b + 1461 * c + 365 * e + r4 + 1"
    using n r1' r2' r3' by (simp add: n_def)
  show ?thesis
  proof (cases "b = 4")
    case True
    with r1 r1' r2 have "r2 = 0" by linarith
    with r2' c r3 have "c = 0" "r3 = 0" by linarith+
    with r3' e r4 have "e = 0" "r4 = 0" by linarith+
    have y: "year_of d = 400 * a + 400" using yo True \<open>c = 0\<close> \<open>e = 0\<close> by simp
    have lo: "days_before_year (400 * a + 400) = 146097 * a + 145731"
      by (subst days_before_year_years[of 3 24 3 _ a]) simp_all
    have "is_leap (400 * a + 400)" by (simp add: is_leap_def)
    then have hi: "days_before_year (400 * a + 400 + 1) = 146097 * a + 146097"
      using days_before_year_Suc[of "400 * a + 400"] lo by simp
    show ?thesis unfolding y using lo hi d True \<open>c = 0\<close> \<open>e = 0\<close> \<open>r4 = 0\<close> by simp
  next
    case False
    with b have b3: "b \<le> 3" by simp
    show ?thesis
    proof (cases "e = 4")
      case True
      with r3 r3' r4 have "r4 = 0" by linarith
      have c23: "c \<le> 23" using r2 r2' r3' True r4 by linarith
      have y: "year_of d = 400 * a + 100 * b + 4 * c + 4" using yo True by simp
      have lo: "days_before_year (400 * a + 100 * b + 4 * c + 4) = 146097 * a + 36524 * b + 1461 * c + 1095"
        using b b3 c by (subst days_before_year_years[of b c 3 _ a]) simp_all
      have "is_leap (400 * a + 100 * b + 4 * c + 4)"
      proof -
        have m4: "(400 * a + 100 * b + 4 * c + 4) mod 4 = 0"
        proof -
          have "400 * a + 100 * b + 4 * c + 4 = 4 * (100 * a + 25 * b + c + 1)" by simp
          then show ?thesis by (metis mod_mult_self1_is_0)
        qed
        have m100: "(400 * a + 100 * b + 4 * c + 4) mod 100 = 4 * c + 4"
          by (rule int_mod_pos_eq[where q = "4 * a + b"]) (use c c23 in auto)
        then have "(400 * a + 100 * b + 4 * c + 4) mod 100 \<noteq> 0" using c by simp
        with m4 show ?thesis by (simp add: is_leap_def)
      qed
      then have hi: "days_before_year (400 * a + 100 * b + 4 * c + 4 + 1)
                       = 146097 * a + 36524 * b + 1461 * c + 1461"
        using days_before_year_Suc[of "400 * a + 100 * b + 4 * c + 4"] lo by simp
      show ?thesis unfolding y using lo hi d True \<open>r4 = 0\<close> by simp
    next
      case e4: False
      with e have e3: "e \<le> 3" by simp
      have y: "year_of d = 400 * a + 100 * b + 4 * c + e + 1" using yo False e4 by simp
      have lo: "days_before_year (400 * a + 100 * b + 4 * c + e + 1)
                  = 146097 * a + 36524 * b + 1461 * c + 365 * e"
        using b b3 c e e3 by (subst days_before_year_years[of b c e _ a]) simp_all
      have hi: "days_before_year (400 * a + 100 * b + 4 * c + e + 1 + 1)
                  \<ge> 146097 * a + 36524 * b + 1461 * c + 365 * e + 365"
        using days_before_year_Suc[of "400 * a + 100 * b + 4 * c + e + 1"] lo by simp
      show ?thesis unfolding y using lo hi d r4 by simp
    qed
  qed
qed

lemma year_of_correct:
  assumes "days_before_year y < d" "d \<le> days_before_year (y + 1)"
  shows "year_of d = y"
proof (rule ccontr)
  assume ne: "year_of d \<noteq> y"
  note b = year_of_bounds[of d]
  show False
  proof (cases "year_of d < y")
    case True
    then have "days_before_year (year_of d + 1) \<le> days_before_year y"
      by (intro days_before_year_mono) simp
    with b assms show False by simp
  next
    case False
    with ne have "days_before_year (y + 1) \<le> days_before_year (year_of d)"
      by (intro days_before_year_mono) simp
    with b assms show False by simp
  qed
qed

lemma ymd_jan1: "ymd y 1 1 = days_before_year y + 1"
  by (simp add: ymd_def days_before_month_def)

lemma ymd_dec31: "ymd y 12 31 = days_before_year (y + 1)"
  by (simp add: ymd_def days_before_month_def days_before_year_Suc)

lemma year_of_in_year:
  assumes "ymd y 1 1 \<le> d" "d \<le> ymd y 12 31"
  shows "year_of d = y"
  using assms year_of_correct[of y d] by (simp add: ymd_jan1 ymd_dec31)

section \<open>Sorting, whatever the algorithm\<close>

lemma mset_sort_values: "mset (sort_values W df) = mset df"
proof -
  have "mset (argsort_of (argsort W) (map fst df)) = mset [0..<length df]"
    using argsort_of[of "argsort W"] by simp
  then have "mset (map (\<lambda>i. df ! i) (argsort_of (argsort W) (map fst df)))
      = mset (map (\<lambda>i. df ! i) [0..<length df])"
    by (metis mset_map)
  then show ?thesis by (simp add: sort_values_def map_nth)
qed

lemma set_sort_values: "set (sort_values W df) = set df"
  using mset_sort_values[of W df] by (metis set_mset_mset)

lemma sort_values_Nil: "sort_values W [] = []"
  using mset_sort_values[of W "[]"] by simp

lemma sorted_sort_values: "sorted (map fst (sort_values W df))"
proof -
  have p: "mset (argsort_of (argsort W) (map fst df)) = mset [0..<length df]"
    and s: "sorted (map (\<lambda>i. map fst df ! i) (argsort_of (argsort W) (map fst df)))"
    using argsort_of[of "argsort W"] by simp_all
  have "\<forall>i \<in> set (argsort_of (argsort W) (map fst df)). i < length df"
    using p by (metis atLeastLessThan_iff set_mset_mset set_upt)
  then have "map fst (sort_values W df)
      = map (\<lambda>i. map fst df ! i) (argsort_of (argsort W) (map fst df))"
    by (simp add: sort_values_def)
  with s show ?thesis by simp
qed

lemma keys_sort_values: "mset (map fst (sort_values W xs)) = mset (map fst xs)"
  using mset_sort_values[of W xs] by (metis mset_map)

lemma distinct_sort_values:
  "distinct (map fst xs) \<Longrightarrow> distinct (map fst (sort_values W xs))"
  using keys_sort_values[of W xs] by (metis mset_eq_imp_distinct_iff)

lemma strict_sort_values:
  "distinct (map fst xs) \<Longrightarrow> sorted_wrt (<) (map fst (sort_values W xs))"
  using distinct_sort_values[of xs W] sorted_sort_values[of W xs]
  by (simp add: strict_sorted_iff)

lemma map_of_sort_values:
  assumes "distinct (map fst xs)"
  shows "map_of (sort_values W xs) = map_of xs"
  by (rule map_of_inject_set[THEN iffD2])
     (simp_all add: assms distinct_sort_values set_sort_values)

lemma rows_from_keys:
  assumes "distinct (map fst xs)"
  shows "xs = map (\<lambda>k. (k, the (map_of xs k))) (map fst xs)"
proof -
  have "map (\<lambda>r. (fst r, the (map_of xs (fst r)))) xs = xs"
  proof (rule map_idI)
    fix r assume "r \<in> set xs"
    then have "map_of xs (fst r) = Some (snd r)"
      using assms by (metis map_of_is_SomeI prod.collapse)
    then show "(fst r, the (map_of xs (fst r))) = r" by simp
  qed
  then show ?thesis by (simp add: comp_def)
qed

lemma keyed_unique:
  fixes xs ys :: "(timestamp \<times> 'a) list"
  assumes "sorted_wrt (<) (map fst xs)" "sorted_wrt (<) (map fst ys)" "map_of xs = map_of ys"
  shows "xs = ys"
proof -
  have dx: "distinct (map fst xs)"
    using assms(1) by (simp add: strict_sorted_iff)
  have dy: "distinct (map fst ys)"
    using assms(2) by (simp add: strict_sorted_iff)
  have "fst ` set xs = fst ` set ys"
    using assms(3) by (metis dom_map_of_conv_image_fst)
  then have "map fst xs = map fst ys"
    using assms(1,2) by (intro strict_sorted_equal) auto
  then show ?thesis
    using rows_from_keys[OF dx] rows_from_keys[OF dy] assms(3) by metis
qed

lemma sort_values_strict:
  assumes "sorted_wrt (<) (map fst xs)"
  shows "sort_values W xs = xs"
proof -
  have d: "distinct (map fst xs)"
    using assms by (simp add: strict_sorted_iff)
  show ?thesis
    by (rule keyed_unique) (simp_all add: assms d strict_sort_values map_of_sort_values)
qed

lemma rows_iff_map_of:
  "distinct (map fst xs) \<Longrightarrow> (t, x) \<in> set xs \<longleftrightarrow> map_of xs t = Some x"
  by (auto dest: map_of_SomeD)

section \<open>The cleaning pipeline of fetch_cdec\<close>

lemma clean_steps_eq:
  "map (\<lambda>(t, x). (the t, the x))
     (filter (\<lambda>(t, x). x \<noteq> Some (- 9999))
        (filter (\<lambda>(t, x). t \<noteq> None \<and> x \<noteq> None)
           (map (\<lambda>(d, v). (pd d, pv v)) data)))
   = drop_sentinel_step (parse_value_step pv (parse_timestamp_step pd data))"
  by (induction data)
     (auto simp: drop_sentinel_step_def parse_value_step_def parse_timestamp_step_def
        List.map_filter_simps split: option.splits)

lemma cleaned_Nil: "cleaned W [] = []"
  by (simp add: cleaned_def drop_sentinel_step_def parse_value_step_def
        parse_timestamp_step_def List.map_filter_simps)

lemma fetch_cdec_spec:
  assumes "urlopen_json W st sn dc s e = Inr data"
  shows "fetch_cdec W st sn dc s e = Inr (spec_pipeline W data)"
proof (cases "data = []")
  case True
  then show ?thesis
    using assms by (simp add: fetch_cdec_def spec_pipeline_def cleaned_Nil sort_values_Nil)
next
  case False
  have "fetch_cdec W st sn dc s e =
      Inr (sort_values W (map (\<lambda>(t, x). (the t, the x))
        (filter (\<lambda>(t, x). x \<noteq> Some (- 9999))
           (filter (\<lambda>(t, x). t \<noteq> None \<and> x \<noteq> None)
              (map (\<lambda>(d, v). (to_datetime W (map fst data) d, to_numeric W v)) data)))))"
    using False assms unfolding fetch_cdec_def Let_def by simp
  then show ?thesis
    unfolding clean_steps_eq by (simp add: spec_pipeline_def cleaned_def)
qed

lemma set_map_filter: "set (List.map_filter f xs) = {y. \<exists>x \<in> set xs. f x = Some y}"
  by (induction xs) (auto simp: List.map_filter_simps split: option.splits)

lemma set_clean_steps:
  "set (drop_sentinel_step (parse_value_step pv (parse_timestamp_step pd data)))
   = {(t, x). x \<noteq> - 9999 \<and> (\<exists>(d, v) \<in> set data. pd d = Some t \<and> pv v = Some x)}"
  unfolding drop_sentinel_step_def parse_value_step_def parse_timestamp_step_def
  by (auto simp: set_map_filter split: prod.splits) force+

lemma set_cleaned:
  "set (cleaned W data)
   = {(t, x). x \<noteq> - 9999 \<and>
        (\<exists>(d, v) \<in> set data. to_datetime W (map fst data) d = Some t \<and> to_numeric W v = Some x)}"
  by (simp add: cleaned_def set_clean_steps)

lemma fetch_cdec_sorted:
  "fetch_cdec W st sn dc s e = Inr df \<Longrightarrow> sorted (map fst df)"
  by (cases "urlopen_json W st sn dc s e")
     (auto simp: fetch_cdec_def Let_def sorted_sort_values split: if_splits)

text \<open>
  C1. Whatever records the service answers with, \<open>fetch_cdec\<close> returns a Series and raises
  nothing: the Series is what the four steps of the specification produce in their order
  (parse the timestamp, parse the value, drop the sentinel -9999, sort by timestamp),
  whatever the sorting algorithm does with equal timestamps and however the parsing of a
  date field depends on the column. It is ascending by timestamp, it has the rows that the
  three discarding steps leave, each as often as they leave it, and these are exactly the
  pairs of a parsed timestamp and a parsed value other than -9999 that some record of the
  payload carries.
\<close>

theorem fetch_cdec_cleaning_pipeline:
  assumes "urlopen_json W station_id sensor_num dur_code start stop = Inr data"
  shows "\<exists>out. fetch_cdec W station_id sensor_num dur_code start stop = Inr out
           \<and> out = spec_pipeline W data
           \<and> sorted (map fst out)
           \<and> mset out = mset (cleaned W data)
           \<and> set out = {(t, x). x \<noteq> - 9999 \<and>
                 (\<exists>(d, v) \<in> set data.
                    to_datetime W (map fst data) d = Some t \<and> to_numeric W v = Some x)}"
proof -
  have "fetch_cdec W station_id sensor_num dur_code start stop = Inr (spec_pipeline W data)"
    by (rule fetch_cdec_spec[OF assms])
  moreover have "sorted (map fst (spec_pipeline W data))"
    by (simp add: spec_pipeline_def sorted_sort_values)
  moreover have "mset (spec_pipeline W data) = mset (cleaned W data)"
    by (simp add: spec_pipeline_def mset_sort_values)
  moreover have "set (spec_pipeline W data) = {(t, x). x \<noteq> - 9999 \<and>
                 (\<exists>(d, v) \<in> set data.
                    to_datetime W (map fst data) d = Some t \<and> to_numeric W v = Some x)}"
    by (simp add: spec_pipeline_def set_sort_values set_cleaned)
  ultimately show ?thesis by simp
qed

theorem fetch_cdec_cleaning_pipeline_witness:
  "urlopen_json constant_world ''LCH'' 1 ''E'' 10 20
     = Inr [(Some 30, Some 5), (None, Some 1), (Some 10, None),
            (Some 20, Some (- 9999)), (Some 20, Some 7), (Some 20, Some 8)]
   \<and> fetch_cdec constant_world ''LCH'' 1 ''E'' 10 20 = Inr [(20, 7), (20, 8), (30, 5)]"
proof -
  have h: "urlopen_json constant_world ''LCH'' 1 ''E'' 10 20
     = Inr [(Some 30, Some 5), (None, Some 1), (Some 10, None),
            (Some 20, Some (- 9999)), (Some 20, Some 7), (Some 20, Some 8)]"
    by (simp add: constant_world_def)
  have "spec_pipeline constant_world
          [(Some 30, Some 5), (None, Some 1), (Some 10, None),
            (Some 20, Some (- 9999)), (Some 20, Some 7), (Some 20, Some 8)]
        = [(20, 7), (20, 8), (30, 5)]"
    by code_simp
  with fetch_cdec_cleaning_pipeline[OF h] h show ?thesis by simp
qed

section \<open>The window loop\<close>

lemma chunk_loop_frames:
  assumes "chunk_loop W st sn dc e c cur frames tr = Some res"
  shows "\<forall>fs tr'. res = (Inr fs, tr') \<longrightarrow>
           (\<exists>fs' ws. fs = frames @ fs' \<and> tr' = tr @ ws \<and> fetched W st sn dc ws fs')"
  using assms
proof (induction W st sn dc e c cur frames tr res rule: chunk_loop.raw_induct[rotated, consumes 1])
  case (1 chunk_loop W st sn dc e c cur frames tr res)
  show ?case
  proof (cases "cur \<le> e")
    case False
    with 1(2) show ?thesis by (auto simp: fetched_def)
  next
    case True
    show ?thesis
    proof (intro allI impI)
      fix fs tr' assume r: "res = (Inr fs, tr')"
      from 1(2) True r obtain d df cur' where
        d: "date_add cur c = Inr d"
        and df: "fetch_cdec W st sn dc cur (min d e) = Inr df"
        and c': "date_add (min d e) 1 = Inr cur'"
        and rec: "chunk_loop W st sn dc e c cur' (frames @ [df]) (tr @ [(cur, min d e)]) = Some (Inr fs, tr')"
        by (auto simp: Let_def split: sum.splits)
      from 1(1)[OF rec]
      have "\<exists>fs' ws. fs = (frames @ [df]) @ fs' \<and> tr' = (tr @ [(cur, min d e)]) @ ws \<and> fetched W st sn dc ws fs'"
        by simp
      then obtain fs' ws where
        "fs = (frames @ [df]) @ fs'" "tr' = (tr @ [(cur, min d e)]) @ ws" "fetched W st sn dc ws fs'"
        by blast
      then have "fs = frames @ (df # fs')" "tr' = tr @ ((cur, min d e) # ws)"
        "fetched W st sn dc ((cur, min d e) # ws) (df # fs')"
        using df by (auto simp: fetched_def)
      then show "\<exists>fs' ws. fs = frames @ fs' \<and> tr' = tr @ ws \<and> fetched W st sn dc ws fs'"
        by blast
    qed
  qed
qed


lemma chunk_loop_windows:
  assumes "0 \<le> c"
  shows "chunk_loop W st sn dc e c cur frames tr = Some (Inr fs, tr')
         \<Longrightarrow> tr' = tr @ chunk_windows e c cur"
  using assms
proof (induction e c cur arbitrary: frames tr rule: chunk_windows.induct)
  case (1 e c cur)
  show ?case
  proof (cases "cur \<le> e")
    case False
    with 1(2) show ?thesis
      by (subst (asm) chunk_loop.simps) (simp add: chunk_windows.simps)
  next
    case True
    from 1(2) True obtain d df cur' where
        d: "date_add cur c = Inr d"
        and c': "date_add (min d e) 1 = Inr cur'"
        and rec: "chunk_loop W st sn dc e c cur' (frames @ [df]) (tr @ [(cur, min d e)]) = Some (Inr fs, tr')"
      by (subst (asm) chunk_loop.simps) (auto simp: Let_def split: sum.splits)
    from d have d': "d = cur + c" by (auto simp: date_add_def split: if_splits)
    from c' have c'': "cur' = min d e + 1" by (auto simp: date_add_def split: if_splits)
    from 1(1)[OF _ rec[unfolded c'' d']] True 1(3)
    have "tr' = (tr @ [(cur, min (cur + c) e)]) @ chunk_windows e c (min (cur + c) e + 1)"
      by simp
    then show ?thesis using True 1(3)
      by (subst chunk_windows.simps) simp
  qed
qed

lemma chunk_loop_terminates:
  assumes "0 \<le> c"
  shows "\<exists>r k. chunk_loop W st sn dc e c cur frames tr = Some (r, tr @ take k (chunk_windows e c cur))"
  using assms
proof (induction e c cur arbitrary: frames tr rule: chunk_windows.induct)
  case (1 e c cur)
  show ?case
  proof (cases "cur \<le> e")
    case False
    then have "chunk_loop W st sn dc e c cur frames tr = Some (Inr frames, tr @ take 0 (chunk_windows e c cur))"
      by (subst chunk_loop.simps) simp
    then show ?thesis by blast
  next
    case True
    let ?w = "(cur, min (cur + c) e)"
    have cw: "chunk_windows e c cur = ?w # chunk_windows e c (min (cur + c) e + 1)"
      using True 1(2) by (subst chunk_windows.simps) simp
    show ?thesis
    proof (cases "date_add cur c")
      case (Inl err)
      then have "chunk_loop W st sn dc e c cur frames tr = Some (Inl err, tr @ take 0 (chunk_windows e c cur))"
        using True by (subst chunk_loop.simps) simp
      then show ?thesis by blast
    next
      case (Inr d)
      then have d: "d = cur + c" by (auto simp: date_add_def split: if_splits)
      show ?thesis
      proof (cases "fetch_cdec W st sn dc cur (min d e)")
        case (Inl err)
        then have "chunk_loop W st sn dc e c cur frames tr = Some (Inl err, tr @ take 1 (chunk_windows e c cur))"
          using True Inr d cw by (subst chunk_loop.simps) (simp add: Let_def)
        then show ?thesis by blast
      next
        case df: (Inr df)
        show ?thesis
        proof (cases "date_add (min d e) 1")
          case (Inl err)
          then have "chunk_loop W st sn dc e c cur frames tr = Some (Inl err, tr @ take 1 (chunk_windows e c cur))"
            using True Inr d cw df by (subst chunk_loop.simps) (simp add: Let_def)
          then show ?thesis by blast
        next
          case c': (Inr cur')
          then have c'': "cur' = min (cur + c) e + 1" using d by (auto simp: date_add_def split: if_splits)
          from 1(1)[OF _ 1(2), of "frames @ [df]" "tr @ [?w]"] True 1(2)
          obtain r k where
            "chunk_loop W st sn dc e c (min (cur + c) e + 1) (frames @ [df]) (tr @ [?w])
               = Some (r, (tr @ [?w]) @ take k (chunk_windows e c (min (cur + c) e + 1)))"
            by auto
          then have "chunk_loop W st sn dc e c cur frames tr = Some (r, tr @ take (Suc k) (chunk_windows e c cur))"
            using True Inr d cw df c' c'' by (subst chunk_loop.simps) (simp add: Let_def)
          then show ?thesis by blast
        qed
      qed
    qed
  qed
qed

section \<open>Dropping duplicates and sorting\<close>

lemma map_of_filter_key:
  "map_of (filter (\<lambda>r. P (fst r)) xs) k = (if P k then map_of xs k else None)"
  by (induction xs) auto

lemma map_of_drop_duplicates: "map_of (drop_duplicates xs) = map_of xs"
proof (induction xs rule: drop_duplicates.induct)
  case 1
  show ?case by simp
next
  case (2 r rs)
  show ?case
  proof
    fix k
    show "map_of (drop_duplicates (r # rs)) k = map_of (r # rs) k"
      using 2 map_of_filter_key[of "\<lambda>k. k \<noteq> fst r" rs k] by (cases r) auto
  qed
qed

lemma keys_filter_neq: "fst ` set (filter (\<lambda>r'. fst r' \<noteq> k) rs) = fst ` set rs - {k}"
  by (induction rs) auto

lemma keys_drop_duplicates: "fst ` set (drop_duplicates xs) = fst ` set xs"
proof (induction xs rule: drop_duplicates.induct)
  case 1
  show ?case by simp
next
  case (2 r rs)
  have "fst ` set (drop_duplicates (filter (\<lambda>r'. fst r' \<noteq> fst r) rs)) = fst ` set rs - {fst r}"
    using 2 keys_filter_neq[of "fst r" rs] by simp
  then have "fst ` set (drop_duplicates (r # rs)) = insert (fst r) (fst ` set rs - {fst r})"
    by simp
  then show ?case by auto
qed

lemma set_drop_duplicates: "set (drop_duplicates xs) \<subseteq> set xs"
  by (induction xs rule: drop_duplicates.induct) auto

lemma distinct_drop_duplicates: "distinct (map fst (drop_duplicates xs))"
proof (induction xs rule: drop_duplicates.induct)
  case 1
  show ?case by simp
next
  case (2 r rs)
  have "fst r \<notin> fst ` set (drop_duplicates (filter (\<lambda>r'. fst r' \<noteq> fst r) rs))"
    unfolding keys_drop_duplicates by auto
  with 2 show ?case by simp
qed

lemma map_of_by_filter:
  "map_of xs k = (case filter (\<lambda>r. fst r = k) xs of [] \<Rightarrow> None | r # _ \<Rightarrow> Some (snd r))"
  by (induction xs) auto

lemma merge_frames_eq: "merge_frames W frames = sort_values W (drop_duplicates (concat frames))"
  by (simp add: merge_frames_def sort_values_Nil)

lemma strict_merge_frames: "sorted_wrt (<) (map fst (merge_frames W frames))"
  unfolding merge_frames_eq by (rule strict_sort_values) (rule distinct_drop_duplicates)

lemma map_of_merge_frames: "map_of (merge_frames W frames) = map_of (concat frames)"
  unfolding merge_frames_eq
  by (simp add: map_of_sort_values distinct_drop_duplicates map_of_drop_duplicates)

lemma set_merge_frames: "set (merge_frames W frames) \<subseteq> set (concat frames)"
  unfolding merge_frames_eq set_sort_values by (rule set_drop_duplicates)

section \<open>The windows of the loop\<close>

lemma cw_Nil: "chunk_windows e c cur = [] \<longleftrightarrow> e < cur \<or> c < 0"
  by (subst chunk_windows.simps) auto

lemma cw_Cons:
  "cur \<le> e \<Longrightarrow> 0 \<le> c \<Longrightarrow>
   chunk_windows e c cur = (cur, min (cur + c) e) # chunk_windows e c (min (cur + c) e + 1)"
  by (subst chunk_windows.simps) simp

lemma cw_bounds:
  "w \<in> set (chunk_windows e c cur) \<Longrightarrow>
   cur \<le> fst w \<and> fst w \<le> snd w \<and> snd w \<le> fst w + c \<and> snd w \<le> e"
proof (induction e c cur rule: chunk_windows.induct)
  case (1 e c cur)
  show ?case
  proof (cases "cur \<le> e \<and> 0 \<le> c")
    case False
    then have "chunk_windows e c cur = []" by (subst chunk_windows.simps) simp
    with 1(2) show ?thesis by simp
  next
    case True
    then have cons: "chunk_windows e c cur = (cur, min (cur + c) e) # chunk_windows e c (min (cur + c) e + 1)"
      by (simp add: cw_Cons)
    have "w = (cur, min (cur + c) e) \<or> w \<in> set (chunk_windows e c (min (cur + c) e + 1))"
      using 1(2) unfolding cons by simp
    then show ?thesis
    proof
      assume "w = (cur, min (cur + c) e)"
      then show ?thesis using True by auto
    next
      assume "w \<in> set (chunk_windows e c (min (cur + c) e + 1))"
      from 1(1)[OF True this] True show ?thesis by auto
    qed
  qed
qed

lemma cw_length: "length (chunk_windows e c cur) \<le> nat (e - cur + 1)"
proof (induction e c cur rule: chunk_windows.induct)
  case (1 e c cur)
  show ?case
  proof (cases "cur \<le> e \<and> 0 \<le> c")
    case False
    then have "chunk_windows e c cur = []" by (subst chunk_windows.simps) simp
    then show ?thesis by simp
  next
    case True
    from 1[OF True] True cw_Cons[of cur e c] show ?thesis by auto
  qed
qed

lemma cw_disjoint: "sorted_wrt (\<lambda>w w'. snd w < fst w') (chunk_windows e c cur)"
proof (induction e c cur rule: chunk_windows.induct)
  case (1 e c cur)
  show ?case
  proof (cases "cur \<le> e \<and> 0 \<le> c")
    case False
    then have "chunk_windows e c cur = []" by (subst chunk_windows.simps) simp
    then show ?thesis by simp
  next
    case True
    then have cons: "chunk_windows e c cur = (cur, min (cur + c) e) # chunk_windows e c (min (cur + c) e + 1)"
      by (simp add: cw_Cons)
    have "\<forall>w \<in> set (chunk_windows e c (min (cur + c) e + 1)). min (cur + c) e < fst w"
    proof
      fix w assume "w \<in> set (chunk_windows e c (min (cur + c) e + 1))"
      from cw_bounds[OF this] show "min (cur + c) e < fst w" by simp
    qed
    with 1[OF True] show ?thesis unfolding cons by simp
  qed
qed

lemma cw_hd: "chunk_windows e c cur \<noteq> [] \<Longrightarrow> fst (hd (chunk_windows e c cur)) = cur"
  by (subst chunk_windows.simps, subst (asm) chunk_windows.simps) (auto split: if_splits)

lemma cw_last: "chunk_windows e c cur \<noteq> [] \<Longrightarrow> snd (last (chunk_windows e c cur)) = e"
proof (induction e c cur rule: chunk_windows.induct)
  case (1 e c cur)
  from 1(2) have True: "cur \<le> e \<and> 0 \<le> c" by (simp add: cw_Nil)
  show ?case
  proof (cases "chunk_windows e c (min (cur + c) e + 1) = []")
    case True': True
    then have "e < min (cur + c) e + 1" using True by (simp add: cw_Nil)
    then show ?thesis using True True' cw_Cons[of cur e c] by auto
  next
    case False
    from 1(1)[OF True False] False True cw_Cons[of cur e c] show ?thesis by auto
  qed
qed

lemma cw_adjacent:
  "(w, w') \<in> set (zip (chunk_windows e c cur) (tl (chunk_windows e c cur)))
   \<Longrightarrow> snd w = fst w + c \<and> fst w' = snd w + 1"
proof (induction e c cur rule: chunk_windows.induct)
  case (1 e c cur)
  show ?case
  proof (cases "cur \<le> e \<and> 0 \<le> c")
    case False
    then have "chunk_windows e c cur = []" by (subst chunk_windows.simps) simp
    with 1(2) show ?thesis by simp
  next
    case True
    let ?rest = "chunk_windows e c (min (cur + c) e + 1)"
    have cons: "chunk_windows e c cur = (cur, min (cur + c) e) # ?rest"
      using True by (simp add: cw_Cons)
    show ?thesis
    proof (cases ?rest)
      case Nil
      with 1(2) cons show ?thesis by simp
    next
      case (Cons v vs)
      then have ne: "?rest \<noteq> []" by simp
      then have lt: "min (cur + c) e + 1 \<le> e" by (simp add: cw_Nil)
      have v: "fst v = min (cur + c) e + 1" using cw_hd[OF ne] Cons by simp
      from 1(2) cons Cons
      have "(w, w') = ((cur, min (cur + c) e), v) \<or> (w, w') \<in> set (zip ?rest (tl ?rest))"
        by auto
      then show ?thesis
      proof
        assume "(w, w') = ((cur, min (cur + c) e), v)"
        then show ?thesis using v lt by auto
      next
        assume "(w, w') \<in> set (zip ?rest (tl ?rest))"
        from 1(1)[OF True this] show ?thesis .
      qed
    qed
  qed
qed

lemma cw_cover:
  "0 \<le> c \<Longrightarrow> (\<exists>w \<in> set (chunk_windows e c cur). fst w \<le> d \<and> d \<le> snd w) \<longleftrightarrow> cur \<le> d \<and> d \<le> e"
proof (induction e c cur rule: chunk_windows.induct)
  case (1 e c cur)
  show ?case
  proof (cases "cur \<le> e")
    case False
    then have "chunk_windows e c cur = []" by (subst chunk_windows.simps) simp
    with False show ?thesis by auto
  next
    case True
    with 1(2) have T: "cur \<le> e \<and> 0 \<le> c" by simp
    from 1(1)[OF T 1(2)] cw_Cons[of cur e c] T show ?thesis by auto
  qed
qed

lemma cw_starts: "sorted_wrt (<) (map fst (chunk_windows e c cur))"
proof -
  have "sorted_wrt (\<lambda>w w'. fst w < fst w') (chunk_windows e c cur)"
    using cw_disjoint[of e c cur]
  proof (rule sorted_wrt_mono_rel[rotated])
    fix w w' assume "w \<in> set (chunk_windows e c cur)" "snd w < fst w'"
    then show "fst w < fst w'" using cw_bounds[of w e c cur] by simp
  qed
  then show ?thesis by (simp add: sorted_wrt_map)
qed

section \<open>Properties of fetch_all_in_chunks\<close>

lemma fetch_all_in_chunks_Inr:
  assumes "fetch_all_in_chunks W st sn dc s e c = Some (Inr out, tr)"
  shows "\<exists>frames. chunk_loop W st sn dc e c s [] [] = Some (Inr frames, tr) \<and> out = merge_frames W frames"
  using assms unfolding fetch_all_in_chunks_def
  by (auto split: option.splits sum.splits prod.splits)

lemma fetch_all_in_chunks_frames:
  assumes "fetch_all_in_chunks W st sn dc s e c = Some (Inr out, tr)"
  shows "\<exists>frames. fetched W st sn dc tr frames \<and> out = merge_frames W frames"
proof -
  from fetch_all_in_chunks_Inr[OF assms] obtain frames where
    l: "chunk_loop W st sn dc e c s [] [] = Some (Inr frames, tr)" and o: "out = merge_frames W frames"
    by blast
  from chunk_loop_frames[OF l] have "fetched W st sn dc tr frames" by simp
  with o show ?thesis by blast
qed

lemma fetch_all_in_chunks_windows:
  assumes "0 \<le> c" "fetch_all_in_chunks W st sn dc s e c = Some (Inr out, tr)"
  shows "tr = chunk_windows e c s"
proof -
  from fetch_all_in_chunks_Inr[OF assms(2)] obtain frames where
    l: "chunk_loop W st sn dc e c s [] [] = Some (Inr frames, tr)" by blast
  from chunk_loop_windows[OF assms(1) l] show ?thesis by simp
qed


lemma reversed_range:
  assumes "e < s"
  shows "fetch_all_in_chunks W st sn dc s e c = Some (Inr [], [])"
  using assms unfolding fetch_all_in_chunks_def
  by (subst chunk_loop.simps) (simp add: merge_frames_def)

lemma lch_2020_whole:
  "fetch_all_in_chunks (dataset_world lch_2020) ''LCH'' 1 ''E'' (ymd 2020 1 1) (ymd 2020 3 1) 30
   = Some (Inr [(ts_at (ymd 2020 1 15) 0, 5), (ts_at (ymd 2020 2 1) 0, 6), (ts_at (ymd 2020 3 1) 0, 8)],
           [(ymd 2020 1 1, ymd 2020 1 31), (ymd 2020 2 1, ymd 2020 3 1)])"
  by code_simp

lemma scenario_windows:
  "chunk_windows (ymd 2020 3 1) 30 (ymd 2020 1 1) = [(ymd 2020 1 1, ymd 2020 1 31), (ymd 2020 2 1, ymd 2020 3 1)]"
  by code_simp

text \<open>
  C9. For every start date, end date and non-negative \<open>chunk_days\<close>, whatever the service
  answers, \<open>fetch_all_in_chunks\<close> returns (a Series or an error) after finitely many window
  fetches: never more than the number of days from start to end, and each window starts
  strictly later than the one before, since the cursor moves to the day after the window's
  end.
\<close>

theorem fetch_all_in_chunks_terminates:
  assumes "0 \<le> chunk_days"
  shows "\<exists>r tr. fetch_all_in_chunks W station_id sensor_num dur_code start_date end_date chunk_days
             = Some (r, tr)
           \<and> length tr \<le> nat (end_date - start_date + 1)
           \<and> sorted_wrt (<) (map fst tr)"
proof -
  from chunk_loop_terminates[OF assms, of W station_id sensor_num dur_code end_date start_date "[]" "[]"]
  obtain r k where
    l: "chunk_loop W station_id sensor_num dur_code end_date chunk_days start_date [] []
          = Some (r, take k (chunk_windows end_date chunk_days start_date))"
    by auto
  let ?tr = "take k (chunk_windows end_date chunk_days start_date)"
  have len: "length ?tr \<le> nat (end_date - start_date + 1)"
    using cw_length[of end_date chunk_days start_date] by simp
  have "sorted_wrt (<) (take k (map fst (chunk_windows end_date chunk_days start_date)))"
    using cw_starts[of end_date chunk_days start_date] by (rule sorted_wrt_take)
  then have srt: "sorted_wrt (<) (map fst ?tr)" by (simp add: take_map)
  have "\<exists>r'. fetch_all_in_chunks W station_id sensor_num dur_code start_date end_date chunk_days
           = Some (r', ?tr)"
    unfolding fetch_all_in_chunks_def using l by (cases r) auto
  with len srt show ?thesis by blast
qed

theorem fetch_all_in_chunks_terminates_witness:
  "(0::int) \<le> 30 \<and>
   (\<exists>r tr. fetch_all_in_chunks (dataset_world lch_2020) ''LCH'' 1 ''E'' (ymd 2020 1 1) (ymd 2020 3 1) 30
             = Some (r, tr)
           \<and> length tr \<le> nat (ymd 2020 3 1 - ymd 2020 1 1 + 1)
           \<and> sorted_wrt (<) (map fst tr))"
  using fetch_all_in_chunks_terminates[of 30 "dataset_world lch_2020" "''LCH''" 1 "''E''" "ymd 2020 1 1" "ymd 2020 3 1"]
  by simp

text \<open>
  C3, as amended. For a non-negative \<open>chunk_days\<close>, when \<open>fetch_all_in_chunks\<close> returns a
  Series, the windows it fetched cover exactly the days from start to end; they are in
  order and no two of them share a day; every window but the last stops \<open>chunk_days\<close> days
  after its start, so it spans \<open>chunk_days + 1\<close> calendar days, and the next one starts the
  day after; no window is longer than that; the first starts at the start date and the last
  stops at the end date; the merged Series has strictly increasing timestamps. From
  2020-01-01 to 2020-03-01 with \<open>chunk_days = 30\<close> the windows are the two
  2020-01-01..2020-01-31 and 2020-02-01..2020-03-01, not three.
\<close>

theorem fetch_all_in_chunks_partition:
  assumes "0 \<le> chunk_days"
    and "fetch_all_in_chunks W station_id sensor_num dur_code start_date end_date chunk_days
           = Some (Inr out, tr)"
  shows "(\<forall>d. (\<exists>w \<in> set tr. fst w \<le> d \<and> d \<le> snd w) \<longleftrightarrow> (start_date \<le> d \<and> d \<le> end_date))
       \<and> sorted_wrt (\<lambda>w w'. snd w < fst w') tr
       \<and> (\<forall>(w, w') \<in> set (zip tr (tl tr)). snd w = fst w + chunk_days \<and> fst w' = snd w + 1)
       \<and> (\<forall>w \<in> set tr. fst w \<le> snd w \<and> snd w \<le> fst w + chunk_days)
       \<and> (tr \<noteq> [] \<longrightarrow> fst (hd tr) = start_date \<and> snd (last tr) = end_date)
       \<and> sorted_wrt (<) (map fst out)
       \<and> (start_date = ymd 2020 1 1 \<and> end_date = ymd 2020 3 1 \<and> chunk_days = 30 \<longrightarrow>
            tr = [(ymd 2020 1 1, ymd 2020 1 31), (ymd 2020 2 1, ymd 2020 3 1)])"
proof -
  have tr: "tr = chunk_windows end_date chunk_days start_date"
    using fetch_all_in_chunks_windows[OF assms] .
  have 1: "\<forall>d. (\<exists>w \<in> set tr. fst w \<le> d \<and> d \<le> snd w) \<longleftrightarrow> (start_date \<le> d \<and> d \<le> end_date)"
    unfolding tr using cw_cover[OF assms(1)] by blast
  have 2: "sorted_wrt (\<lambda>w w'. snd w < fst w') tr"
    unfolding tr by (rule cw_disjoint)
  have 3: "\<forall>(w, w') \<in> set (zip tr (tl tr)). snd w = fst w + chunk_days \<and> fst w' = snd w + 1"
    unfolding tr using cw_adjacent by blast
  have 4: "\<forall>w \<in> set tr. fst w \<le> snd w \<and> snd w \<le> fst w + chunk_days"
    unfolding tr using cw_bounds by blast
  have 5: "tr \<noteq> [] \<longrightarrow> fst (hd tr) = start_date \<and> snd (last tr) = end_date"
    unfolding tr using cw_hd cw_last by blast
  have 6: "sorted_wrt (<) (map fst out)"
    using fetch_all_in_chunks_frames[OF assms(2)] strict_merge_frames by blast
  have 7: "start_date = ymd 2020 1 1 \<and> end_date = ymd 2020 3 1 \<and> chunk_days = 30 \<longrightarrow>
            tr = [(ymd 2020 1 1, ymd 2020 1 31), (ymd 2020 2 1, ymd 2020 3 1)]"
    unfolding tr using scenario_windows by simp
  from 1 2 3 4 5 6 7 show ?thesis by blast
qed

theorem fetch_all_in_chunks_partition_witness:
  "(0::int) \<le> 30
   \<and> fetch_all_in_chunks (dataset_world lch_2020) ''LCH'' 1 ''E'' (ymd 2020 1 1) (ymd 2020 3 1) 30
     = Some (Inr [(ts_at (ymd 2020 1 15) 0, 5), (ts_at (ymd 2020 2 1) 0, 6), (ts_at (ymd 2020 3 1) 0, 8)],
           [(ymd 2020 1 1, ymd 2020 1 31), (ymd 2020 2 1, ymd 2020 3 1)])
   \<and> sorted_wrt (\<lambda>w w'. snd w < fst w') [(ymd 2020 1 1, ymd 2020 1 31), (ymd 2020 2 1, ymd 2020 3 1)]
   \<and> sorted_wrt (<) (map fst [(ts_at (ymd 2020 1 15) 0, 5::real), (ts_at (ymd 2020 2 1) 0, 6), (ts_at (ymd 2020 3 1) 0, 8)])"
proof -
  have h: "(0::int) \<le> 30" by simp
  note t = fetch_all_in_chunks_partition[OF h lch_2020_whole]
  note a = t[THEN conjunct2, THEN conjunct1]
  note b = t[THEN conjunct2, THEN conjunct2, THEN conjunct2, THEN conjunct2, THEN conjunct2,
             THEN conjunct1]
  from h lch_2020_whole a b show ?thesis by (intro conjI)
qed

theorem scenario_c_issues_two_fetches:
  "fetch_all_in_chunks (dataset_world lch_2020) ''LCH'' 1 ''E'' (ymd 2020 1 1) (ymd 2020 3 1) 30
   = Some (Inr [(ts_at (ymd 2020 1 15) 0, 5), (ts_at (ymd 2020 2 1) 0, 6), (ts_at (ymd 2020 3 1) 0, 8)],
           [(ymd 2020 1 1, ymd 2020 1 31), (ymd 2020 2 1, ymd 2020 3 1)])
   \<and> length [(ymd 2020 1 1, ymd 2020 1 31), (ymd 2020 2 1, ymd 2020 3 1)] \<noteq> 3"
  using lch_2020_whole by simp

text \<open>
  C2, as amended. Every Series that \<open>fetch_all_in_chunks\<close> returns has strictly increasing
  timestamps, so at most one reading per timestamp, and the reading kept for a timestamp is
  the first one with that timestamp in the concatenation of the per-window Series, in the
  order the windows were fetched. A Series that \<open>fetch_cdec\<close> returns is ascending by
  timestamp, but \<open>fetch_cdec\<close> drops no duplicates: two records of one payload with the same
  timestamp both stay.
\<close>

theorem fetch_all_in_chunks_first_occurrence:
  assumes "fetch_all_in_chunks W station_id sensor_num dur_code start_date end_date chunk_days
             = Some (Inr out, tr)"
  shows "sorted_wrt (<) (map fst out)
       \<and> (\<exists>frames. fetched W station_id sensor_num dur_code tr frames
             \<and> (\<forall>t x. (t, x) \<in> set out \<longleftrightarrow> map_of (concat frames) t = Some x))
       \<and> (\<forall>start stop df. fetch_cdec W station_id sensor_num dur_code start stop = Inr df
             \<longrightarrow> sorted (map fst df))"
proof -
  from fetch_all_in_chunks_frames[OF assms] obtain frames where
    f: "fetched W station_id sensor_num dur_code tr frames" and o: "out = merge_frames W frames"
    by blast
  have s: "sorted_wrt (<) (map fst out)" unfolding o by (rule strict_merge_frames)
  then have "distinct (map fst out)" by (simp add: strict_sorted_iff)
  then have "\<forall>t x. (t, x) \<in> set out \<longleftrightarrow> map_of (concat frames) t = Some x"
    using rows_iff_map_of[of out] map_of_merge_frames[of W frames] o by simp
  moreover have "\<forall>start stop df. fetch_cdec W station_id sensor_num dur_code start stop = Inr df
             \<longrightarrow> sorted (map fst df)"
    using fetch_cdec_sorted by blast
  ultimately show ?thesis using s f by blast
qed

theorem fetch_all_in_chunks_first_occurrence_witness:
  "fetch_all_in_chunks (dataset_world lch_2020) ''LCH'' 1 ''E'' (ymd 2020 1 1) (ymd 2020 3 1) 30
     = Some (Inr [(ts_at (ymd 2020 1 15) 0, 5), (ts_at (ymd 2020 2 1) 0, 6), (ts_at (ymd 2020 3 1) 0, 8)],
           [(ymd 2020 1 1, ymd 2020 1 31), (ymd 2020 2 1, ymd 2020 3 1)])
   \<and> sorted_wrt (<) (map fst [(ts_at (ymd 2020 1 15) 0, 5::real), (ts_at (ymd 2020 2 1) 0, 6), (ts_at (ymd 2020 3 1) 0, 8)])"
  using fetch_all_in_chunks_first_occurrence[OF lch_2020_whole] lch_2020_whole by simp

theorem fetch_cdec_keeps_duplicates:
  "fetch_cdec constant_world ''LCH'' 1 ''E'' 10 20 = Inr [(20, 7), (20, 8), (30, 5)]
   \<and> \<not> distinct (map fst [(20, 7), (20, 8), (30, 5 :: real)] :: timestamp list)"
  by code_simp

section \<open>The anchor probes and the narrowing loop\<close>

lemma probe_all_empty:
  assumes "\<forall>y \<in> set ys. fetch_cdec W st sn dc (ymd y 1 1) (ymd y 12 31) = Inr []"
  shows "probe W st sn dc ys tr = (Inr None, tr @ map year_window ys)"
  using assms by (induction ys arbitrary: tr) (simp_all add: year_window_def Let_def)

lemma probe_first:
  assumes "fetch_cdec W st sn dc (ymd y 1 1) (ymd y 12 31) = Inr df" "df \<noteq> []"
  shows "probe W st sn dc (y # ys) tr = (Inr (Some (min_date df)), tr @ [year_window y])"
  using assms by (simp add: year_window_def Let_def)

lemma narrow_stop: "y \<le> 1900 \<Longrightarrow> narrow W st sn dc y ef tr = (Inr ef, tr)"
  by (subst narrow.simps) simp

lemma narrow_empty:
  assumes "1900 < y" "fetch_cdec W st sn dc (ymd (y - 1) 1 1) (ymd (y - 1) 12 31) = Inr []"
  shows "narrow W st sn dc y ef tr = (Inr ef, tr @ [year_window (y - 1)])"
  using assms by (subst narrow.simps) (simp add: year_window_def Let_def)

lemma narrow_step:
  assumes "1900 < y" "fetch_cdec W st sn dc (ymd (y - 1) 1 1) (ymd (y - 1) 12 31) = Inr df" "df \<noteq> []"
  shows "narrow W st sn dc y ef tr
           = narrow W st sn dc (y - 1) (min_date df) (tr @ [year_window (y - 1)])"
  using assms by (subst narrow.simps) (simp add: year_window_def Let_def)

lemma narrow_error:
  assumes "1900 < y" "fetch_cdec W st sn dc (ymd (y - 1) 1 1) (ymd (y - 1) 12 31) = Inl err"
  shows "narrow W st sn dc y ef tr = (Inl err, tr @ [year_window (y - 1)])"
  using assms by (subst narrow.simps) (simp add: year_window_def Let_def)

lemma narrow_all_years:
  assumes "1900 < y"
    and "\<forall>y'. 1900 \<le> y' \<and> y' < y \<longrightarrow>
           fetch_cdec W st sn dc (ymd y' 1 1) (ymd y' 12 31) = Inr (frame y') \<and> frame y' \<noteq> []"
  shows "narrow W st sn dc y ef tr
           = (Inr (min_date (frame 1900)), tr @ map year_window (rev [1900..y - 1]))"
  using assms
proof (induction "nat (y - 1900)" arbitrary: y ef tr)
  case 0
  then show ?case by simp
next
  case (Suc n)
  from Suc(4) Suc(3) have f: "fetch_cdec W st sn dc (ymd (y - 1) 1 1) (ymd (y - 1) 12 31) = Inr (frame (y - 1))"
    "frame (y - 1) \<noteq> []" by auto
  have step: "narrow W st sn dc y ef tr
                = narrow W st sn dc (y - 1) (min_date (frame (y - 1))) (tr @ [year_window (y - 1)])"
    using narrow_step[OF Suc(3) f] .
  have up: "[1900..y - 1] = [1900..y - 1 - 1] @ [y - 1]"
    using Suc(3) by (intro upto_rec2) simp
  show ?case
  proof (cases "y - 1 = 1900")
    case True
    then have "narrow W st sn dc (y - 1) (min_date (frame (y - 1))) (tr @ [year_window (y - 1)])
                 = (Inr (min_date (frame 1900)), tr @ [year_window (y - 1)])"
      by (simp add: narrow_stop)
    then show ?thesis unfolding step using True by simp
  next
    case False
    with Suc(3) have gt: "1900 < y - 1" by simp
    have n: "n = nat (y - 1 - 1900)" using Suc(2) by simp
    have all: "\<forall>y'. 1900 \<le> y' \<and> y' < y - 1 \<longrightarrow>
           fetch_cdec W st sn dc (ymd y' 1 1) (ymd y' 12 31) = Inr (frame y') \<and> frame y' \<noteq> []"
      using Suc(4) by simp
    from Suc(1)[OF n gt all]
    have "narrow W st sn dc (y - 1) (min_date (frame (y - 1))) (tr @ [year_window (y - 1)])
            = (Inr (min_date (frame 1900)), (tr @ [year_window (y - 1)]) @ map year_window (rev [1900..y - 1 - 1]))" .
    then show ?thesis unfolding step by (subst up) simp
  qed
qed

lemma min_date_within:
  assumes "answers_within W st sn dc" "fetch_cdec W st sn dc s e = Inr df" "df \<noteq> []"
  shows "s \<le> min_date df \<and> min_date df \<le> e"
proof -
  have "Min (set (map fst df)) \<in> set (map fst df)"
    using assms(3) by (intro Min_in) simp_all
  then obtain r where "r \<in> set df" "fst r = Min (set (map fst df))" by auto
  with assms(1,2) show ?thesis
    unfolding answers_within_def min_date_def by metis
qed

lemma narrow_last:
  assumes "answers_within W st sn dc"
  shows "narrow W st sn dc y ef tr = (Inr d, tr') \<Longrightarrow> year_of ef = y \<Longrightarrow> 1900 < year_of d \<Longrightarrow>
         tr' \<noteq> [] \<and> last tr' = year_window (year_of d - 1)
         \<and> fetch_cdec W st sn dc (ymd (year_of d - 1) 1 1) (ymd (year_of d - 1) 12 31) = Inr []"
proof (induction "nat (y - 1900)" arbitrary: y ef tr)
  case 0
  then have "narrow W st sn dc y ef tr = (Inr ef, tr)" by (simp add: narrow_stop)
  with 0 show ?case by simp
next
  case (Suc n)
  then have gt: "1900 < y" by simp
  show ?case
  proof (cases "fetch_cdec W st sn dc (ymd (y - 1) 1 1) (ymd (y - 1) 12 31)")
    case (Inl err)
    from narrow_error[OF gt Inl] Suc(3) show ?thesis by simp
  next
    case (Inr df)
    show ?thesis
    proof (cases "df = []")
      case True
      with Inr narrow_empty[OF gt, of W st sn dc ef tr] Suc(3)
      have "d = ef" "tr' = tr @ [year_window (y - 1)]" by simp_all
      with Suc(4) Inr True show ?thesis by simp
    next
      case False
      from min_date_within[OF assms Inr False]
      have y': "year_of (min_date df) = y - 1" by (intro year_of_in_year) simp_all
      have n: "n = nat (y - 1 - 1900)" using Suc(2) by simp
      from narrow_step[OF gt Inr False, of ef tr] Suc(3)
      have "narrow W st sn dc (y - 1) (min_date df) (tr @ [year_window (y - 1)]) = (Inr d, tr')"
        by simp
      from Suc(1)[OF n this y' Suc(5)] show ?thesis .
    qed
  qed
qed

lemma answers_exactly_within:
  assumes "answers_exactly W st sn dc D"
  shows "answers_within W st sn dc"
  unfolding answers_within_def
proof (intro allI impI ballI)
  fix s e df r
  assume f: "fetch_cdec W st sn dc s e = Inr df" and r: "r \<in> set df"
  from assms f have "mset df = mset (filter (\<lambda>r. dated_within s e (fst r)) D)"
    unfolding answers_exactly_def by (metis sum.inject(2))
  then have "set df = set (filter (\<lambda>r. dated_within s e (fst r)) D)"
    by (metis set_mset_mset)
  with r show "s \<le> ts_date (fst r) \<and> ts_date (fst r) \<le> e"
    by (simp add: dated_within_def)
qed

section \<open>Services with one list of records behind them\<close>

lemma dataset_cleaned:
  "drop_sentinel_step (parse_value_step (\<lambda>v. v) (parse_timestamp_step (\<lambda>d. d) data))
     = dataset_readings data"
  by (induction data)
     (auto simp: dataset_readings_def drop_sentinel_step_def parse_value_step_def
        parse_timestamp_step_def List.map_filter_simps split: option.splits)

lemma dataset_readings_filter:
  "dataset_readings
     (filter (\<lambda>(d, v). case d of None \<Rightarrow> False
                        | Some t \<Rightarrow> s \<le> ts_date t \<and> ts_date t \<le> e) records)
     = filter (\<lambda>r. dated_within s e (fst r)) (dataset_readings records)"
  by (induction records)
     (auto simp: dataset_readings_def List.map_filter_simps dated_within_def
        split: option.splits if_splits)

lemma dataset_fetch_cdec:
  "fetch_cdec (dataset_world_with algorithm records) st sn dc s e
     = Inr (sort_values (dataset_world_with algorithm records)
              (filter (\<lambda>r. dated_within s e (fst r)) (dataset_readings records)))"
proof -
  let ?W = "dataset_world_with algorithm records"
  let ?data = "filter (\<lambda>(d, v). case d of None \<Rightarrow> False
                        | Some t \<Rightarrow> s \<le> ts_date t \<and> ts_date t \<le> e) records"
  have "urlopen_json ?W st sn dc s e = Inr ?data"
    by (simp add: dataset_world_with_def)
  from fetch_cdec_spec[OF this]
  have "fetch_cdec ?W st sn dc s e = Inr (sort_values ?W (cleaned ?W ?data))"
    by (simp add: spec_pipeline_def)
  moreover have "cleaned ?W ?data = dataset_readings ?data"
    unfolding cleaned_def using dataset_cleaned[of ?data] by (simp add: dataset_world_with_def)
  ultimately show ?thesis by (simp add: dataset_readings_filter)
qed

lemma dataset_world_with_exactly:
  "answers_exactly (dataset_world_with algorithm records) st sn dc (dataset_readings records)"
  unfolding answers_exactly_def by (simp add: dataset_fetch_cdec mset_sort_values)

lemma dataset_world_exactly:
  "answers_exactly (dataset_world records) st sn dc (dataset_readings records)"
  unfolding dataset_world_def by (rule dataset_world_with_exactly)

lemma dataset_world_answers:
  "\<forall>s e. \<exists>df. fetch_cdec (dataset_world records) st sn dc s e = Inr df"
  unfolding dataset_world_def by (simp add: dataset_fetch_cdec)

section \<open>The fallback probe\<close>

lemma only_2005_anchors_empty:
  "\<forall>y \<in> set probe_years.
     fetch_cdec (dataset_world only_2005) ''LCH'' 1 ''E'' (ymd y 1 1) (ymd y 12 31) = Inr []"
  by code_simp

lemma no_data_anchors_empty:
  "\<forall>y \<in> set probe_years.
     fetch_cdec (dataset_world []) ''LCH'' 1 ''E'' (ymd y 1 1) (ymd y 12 31) = Inr []"
  by code_simp

lemma only_2005_fallback:
  "fetch_cdec (dataset_world only_2005) ''LCH'' 1 ''E'' (ymd 2000 1 1) (ymd 2024 1 1)
     = Inr [(ts_at (ymd 2005 7 4) 0, 12)]"
  by code_simp

lemma no_data_fallback:
  "fetch_cdec (dataset_world []) ''LCH'' 1 ''E'' (ymd 2000 1 1) (ymd 2024 1 1) = Inr []"
  by code_simp

lemma min_date_2005: "min_date [(ts_at (ymd 2005 7 4) 0, 12)] = ymd 2005 7 4"
  by code_simp

text \<open>
  C5. When all eight anchor-year probes come back empty, \<open>find_earliest_date\<close> makes exactly
  one more request, for 2000-01-01 up to today, and nothing after it: if that answer is
  empty too it fails with the \<^verbatim>\<open>RuntimeError\<close> "No data found" (the specification's
  NoDataFoundError); if it is not empty it returns the minimum date of that answer, with no
  year-by-year narrowing; a transport failure of the request is passed on.
\<close>

theorem find_earliest_date_fallback:
  assumes "\<forall>y \<in> set probe_years.
             fetch_cdec W station_id sensor_num dur_code (ymd y 1 1) (ymd y 12 31) = Inr []"
  shows "(fetch_cdec W station_id sensor_num dur_code (ymd 2000 1 1) today = Inr [] \<longrightarrow>
            find_earliest_date W station_id sensor_num dur_code today
              = (Inl RuntimeError_no_data, map year_window probe_years @ [(ymd 2000 1 1, today)]))
       \<and> (\<forall>df. fetch_cdec W station_id sensor_num dur_code (ymd 2000 1 1) today = Inr df \<and> df \<noteq> [] \<longrightarrow>
            find_earliest_date W station_id sensor_num dur_code today
              = (Inr (min_date df), map year_window probe_years @ [(ymd 2000 1 1, today)]))
       \<and> (\<forall>e. fetch_cdec W station_id sensor_num dur_code (ymd 2000 1 1) today = Inl e \<longrightarrow>
            find_earliest_date W station_id sensor_num dur_code today
              = (Inl e, map year_window probe_years @ [(ymd 2000 1 1, today)]))"
  using probe_all_empty[OF assms, of "[]"]
  by (simp add: find_earliest_date_def)

theorem find_earliest_date_fallback_witness:
  "list_all (\<lambda>y. fetch_cdec (dataset_world []) ''LCH'' 1 ''E'' (ymd y 1 1) (ymd y 12 31) = Inr [])
     probe_years
   \<and> find_earliest_date (dataset_world []) ''LCH'' 1 ''E'' (ymd 2024 1 1)
       = (Inl RuntimeError_no_data, map year_window probe_years @ [(ymd 2000 1 1, ymd 2024 1 1)])
   \<and> list_all (\<lambda>y. fetch_cdec (dataset_world only_2005) ''LCH'' 1 ''E'' (ymd y 1 1) (ymd y 12 31)
                     = Inr [])
       probe_years
   \<and> find_earliest_date (dataset_world only_2005) ''LCH'' 1 ''E'' (ymd 2024 1 1)
       = (Inr (ymd 2005 7 4), map year_window probe_years @ [(ymd 2000 1 1, ymd 2024 1 1)])"
proof -
  note a = find_earliest_date_fallback[OF no_data_anchors_empty, of "ymd 2024 1 1", THEN conjunct1,
             rule_format, OF no_data_fallback]
  note b = find_earliest_date_fallback[OF only_2005_anchors_empty, of "ymd 2024 1 1",
             THEN conjunct2, THEN conjunct1, rule_format, of "[(ts_at (ymd 2005 7 4) 0, 12)]"]
  have "find_earliest_date (dataset_world only_2005) ''LCH'' 1 ''E'' (ymd 2024 1 1)
       = (Inr (ymd 2005 7 4), map year_window probe_years @ [(ymd 2000 1 1, ymd 2024 1 1)])"
    using b only_2005_fallback min_date_2005 by simp
  with a no_data_anchors_empty only_2005_anchors_empty show ?thesis
    unfolding list_all_iff by (intro conjI)
qed

lemma ts_date_ts_at: "ts_date (ts_at d 0) = d"
  by (simp add: ts_date_def ts_at_def)

lemma ymd_jun1: "ymd y 6 1 = days_before_year y + 152 + (if is_leap y then 1 else 0)"
  by (simp add: ymd_def days_before_month_def)

lemma jun1_in_year: "ymd y 1 1 \<le> ymd y' 6 1 \<and> ymd y' 6 1 \<le> ymd y 12 31 \<longleftrightarrow> y' = y"
proof
  assume a: "ymd y 1 1 \<le> ymd y' 6 1 \<and> ymd y' 6 1 \<le> ymd y 12 31"
  then have "year_of (ymd y' 6 1) = y" by (intro year_of_in_year) simp_all
  moreover have "year_of (ymd y' 6 1) = y'"
    by (intro year_of_in_year) (simp_all add: ymd_jun1 ymd_jan1 ymd_dec31 days_before_year_Suc)
  ultimately show "y' = y" by simp
next
  assume "y' = y"
  then show "ymd y 1 1 \<le> ymd y' 6 1 \<and> ymd y' 6 1 \<le> ymd y 12 31"
    by (simp add: ymd_jun1 ymd_jan1 ymd_dec31 days_before_year_Suc)
qed

lemma filter_eq_single: "distinct xs \<Longrightarrow> y \<in> set xs \<Longrightarrow> filter (\<lambda>x. x = y) xs = [y]"
  by (induction xs) (auto simp: filter_empty_conv)

lemma yearly_frames:
  assumes "y \<in> {1900..1970}"
  shows "fetch_cdec (dataset_world yearly_1900_1970) ''LCH'' 1 ''E'' (ymd y 1 1) (ymd y 12 31)
       = Inr [(ts_at (ymd y 6 1) 0, 1)]"
proof -
  have "filter (\<lambda>(d, v). case d of None \<Rightarrow> False
                     | Some t \<Rightarrow> ymd y 1 1 \<le> ts_date t \<and> ts_date t \<le> ymd y 12 31) yearly_1900_1970
        = map (\<lambda>y. (Some (ts_at (ymd y 6 1) 0), Some 1)) (filter (\<lambda>y'. y' = y) [1900..1970])"
    unfolding yearly_1900_1970_def filter_map
    by (simp add: comp_def ts_date_ts_at jun1_in_year)
  also have "filter (\<lambda>y'. y' = y) [1900..1970] = [y]"
    using assms by (intro filter_eq_single) (simp_all only: distinct_upto set_upto)
  finally have "urlopen_json (dataset_world yearly_1900_1970) ''LCH'' 1 ''E'' (ymd y 1 1) (ymd y 12 31)
       = Inr [(Some (ts_at (ymd y 6 1) 0), Some 1)]"
    by (simp add: dataset_world_def dataset_world_with_def)
  from fetch_cdec_spec[OF this] show ?thesis
    by (simp add: spec_pipeline_def cleaned_def drop_sentinel_step_def parse_value_step_def
          parse_timestamp_step_def List.map_filter_simps dataset_world_def
          dataset_world_with_def sort_values_strict)
qed

lemma min_date_1900: "min_date [(ts_at (ymd 1900 6 1) 0, 1)] = ymd 1900 6 1"
  by code_simp

lemma yearly_find:
  "find_earliest_date (dataset_world yearly_1900_1970) ''LCH'' 1 ''E'' (ymd 2024 1 1)
     = (Inr (ymd 1900 6 1), [(ymd 1900 1 1, ymd 1900 12 31)])"
  by code_simp

section \<open>Properties of find_earliest_date\<close>

lemma yearly_1970:
  "fetch_cdec (dataset_world yearly_1900_1970) ''LCH'' 1 ''E'' (ymd 1970 1 1) (ymd 1970 12 31)
     = Inr [(ts_at (ymd 1970 6 1) 0, 1)]"
  by (rule yearly_frames) simp

lemma year_of_min_date_1900: "year_of (min_date [(ts_at (ymd 1900 6 1) 0, 1)]) = 1900"
  by code_simp

text \<open>
  C4, as amended. For a service where every calendar year from 1900 to 1970 is non-empty
  and the earliest reading of the 1900 window is dated in 1900, \<open>find_earliest_date\<close> stops
  the coarse probe at its first anchor, 1900: it fetches that one window, runs no narrowing
  iteration (the loop is entered with \<open>y = 1900\<close>) and returns the minimum date observed in
  the 1900 window. The narrowing loop itself, entered at \<open>y = 1970\<close> on such a service, runs
  exactly 70 iterations, one for each year from 1969 down to 1900, leaves at \<open>y = 1900\<close> and
  returns the minimum date observed in the 1900 window.
\<close>

theorem find_earliest_date_all_years:
  assumes "\<forall>y \<in> {1900..1970}.
             fetch_cdec W station_id sensor_num dur_code (ymd y 1 1) (ymd y 12 31) = Inr (frame y)
             \<and> frame y \<noteq> []"
    and "year_of (min_date (frame 1900)) = 1900"
  shows "find_earliest_date W station_id sensor_num dur_code today
           = (Inr (min_date (frame 1900)), [year_window 1900])
       \<and> (\<forall>earliest_found tr.
            narrow W station_id sensor_num dur_code 1970 earliest_found tr
              = (Inr (min_date (frame 1900)), tr @ map year_window (rev [1900..1969])))
       \<and> length (map year_window (rev [1900..1969])) = 70"
proof -
  from assms(1) have f: "fetch_cdec W station_id sensor_num dur_code (ymd 1900 1 1) (ymd 1900 12 31)
                        = Inr (frame 1900)" "frame 1900 \<noteq> []"
    by simp_all
  have p: "probe W station_id sensor_num dur_code probe_years []
             = (Inr (Some (min_date (frame 1900))), [year_window 1900])"
    unfolding probe_years_def using probe_first[OF f, of _ "[]"] by simp
  have 1: "find_earliest_date W station_id sensor_num dur_code today
           = (Inr (min_date (frame 1900)), [year_window 1900])"
    by (simp add: find_earliest_date_def p assms(2) narrow_stop)
  have all: "\<forall>y'. 1900 \<le> y' \<and> y' < 1970 \<longrightarrow>
           fetch_cdec W station_id sensor_num dur_code (ymd y' 1 1) (ymd y' 12 31) = Inr (frame y')
           \<and> frame y' \<noteq> []"
    using assms(1) by simp
  have 2: "\<forall>earliest_found tr.
            narrow W station_id sensor_num dur_code 1970 earliest_found tr
              = (Inr (min_date (frame 1900)), tr @ map year_window (rev [1900..1969]))"
    using narrow_all_years[of 1970 W station_id sensor_num dur_code frame, OF _ all] by simp
  have 3: "length (map year_window (rev [1900..1969])) = 70" by simp
  from 1 2 3 show ?thesis by (intro conjI)
qed

theorem find_earliest_date_all_years_witness:
  "list_all (\<lambda>y. fetch_cdec (dataset_world yearly_1900_1970) ''LCH'' 1 ''E'' (ymd y 1 1) (ymd y 12 31)
                     = Inr [(ts_at (ymd y 6 1) 0, 1)])
     [1900..1970]
   \<and> year_of (min_date [(ts_at (ymd 1900 6 1) 0, 1)]) = 1900
   \<and> find_earliest_date (dataset_world yearly_1900_1970) ''LCH'' 1 ''E'' (ymd 2024 1 1)
        = (Inr (ymd 1900 6 1), [year_window 1900])
   \<and> narrow (dataset_world yearly_1900_1970) ''LCH'' 1 ''E'' 1970 (ymd 1970 6 1) []
        = (Inr (ymd 1900 6 1), map year_window (rev [1900..1969]))"
proof -
  have h: "\<forall>y \<in> {1900..1970}.
      fetch_cdec (dataset_world yearly_1900_1970) ''LCH'' 1 ''E'' (ymd y 1 1) (ymd y 12 31)
        = Inr [(ts_at (ymd y 6 1) 0, 1)]
      \<and> [(ts_at (ymd y 6 1) 0, 1 :: real)] \<noteq> []"
    using yearly_frames by simp
  note t = find_earliest_date_all_years[of "dataset_world yearly_1900_1970" "''LCH''" 1 "''E''"
             "\<lambda>y. [(ts_at (ymd y 6 1) 0, 1)]" "ymd 2024 1 1", OF h year_of_min_date_1900]
  have l: "list_all (\<lambda>y. fetch_cdec (dataset_world yearly_1900_1970) ''LCH'' 1 ''E'' (ymd y 1 1) (ymd y 12 31)
                     = Inr [(ts_at (ymd y 6 1) 0, 1)])
     [1900..1970]"
    unfolding list_all_iff set_upto using yearly_frames by blast
  have a: "find_earliest_date (dataset_world yearly_1900_1970) ''LCH'' 1 ''E'' (ymd 2024 1 1)
        = (Inr (ymd 1900 6 1), [year_window 1900])"
    using t[THEN conjunct1] min_date_1900 by simp
  have b: "narrow (dataset_world yearly_1900_1970) ''LCH'' 1 ''E'' 1970 (ymd 1970 6 1) []
        = (Inr (ymd 1900 6 1), map year_window (rev [1900..1969]))"
    using t[THEN conjunct2, THEN conjunct1, rule_format, of "ymd 1970 6 1" "[]"] min_date_1900
    by simp
  from l year_of_min_date_1900 a b show ?thesis by (intro conjI)
qed

theorem scenario_b_runs_no_narrowing:
  "fetch_cdec (dataset_world yearly_1900_1970) ''LCH'' 1 ''E'' (ymd 1970 1 1) (ymd 1970 12 31)
     = Inr [(ts_at (ymd 1970 6 1) 0, 1)]
   \<and> find_earliest_date (dataset_world yearly_1900_1970) ''LCH'' 1 ''E'' (ymd 2024 1 1)
     = (Inr (ymd 1900 6 1), [(ymd 1900 1 1, ymd 1900 12 31)])"
  using yearly_1970 yearly_find by (intro conjI)

lemma since_2008_probe:
  "probe (dataset_world since_2008) ''LCH'' 1 ''E'' probe_years []
     = (Inr (Some (ymd 2010 3 15)), map year_window probe_years)"
  by code_simp

lemma since_2008_find:
  "find_earliest_date (dataset_world since_2008) ''LCH'' 1 ''E'' (ymd 2024 1 1)
     = (Inr (ymd 2008 11 20), map year_window probe_years @ map year_window [2009, 2008, 2007])"
  by code_simp

lemma year_of_found: "year_of (ymd 2008 11 20) = 2008"
  by code_simp

lemma stray_probe:
  "probe stray_world ''LCH'' 1 ''E'' probe_years [] = (Inr (Some (ymd 1950 6 1)), [year_window 1900])"
  by code_simp

lemma stray_find:
  "find_earliest_date stray_world ''LCH'' 1 ''E'' (ymd 2024 1 1)
     = (Inr (ymd 1960 3 1), [year_window 1900, year_window 1949, year_window 1948])"
  by code_simp

lemma stray_year: "year_of (ymd 1960 3 1) = 1960 \<and> year_window 1948 \<noteq> year_window 1959"
  by code_simp

text \<open>
  C10, as amended. Provided the service answers every window only with readings dated
  inside it: whenever \<open>find_earliest_date\<close> returns a date \<open>d\<close> by the anchor path (an anchor
  year had data, so the fallback was not used) and the year of \<open>d\<close> is after 1900, the last
  window fetched was the whole calendar year before the year of \<open>d\<close>, and it came back
  empty. Without the proviso the claim fails: a service that answers a year's window with
  a reading of a later year makes the loop count down from one year while the date
  returned lies in another.
\<close>

theorem find_earliest_date_previous_year_empty:
  assumes "answers_within W station_id sensor_num dur_code"
    and "probe W station_id sensor_num dur_code probe_years [] = (Inr (Some earliest_found), tr0)"
    and "find_earliest_date W station_id sensor_num dur_code today = (Inr d, tr)"
    and "1900 < year_of d"
  shows "tr \<noteq> [] \<and> last tr = year_window (year_of d - 1)
       \<and> fetch_cdec W station_id sensor_num dur_code (ymd (year_of d - 1) 1 1) (ymd (year_of d - 1) 12 31)
           = Inr []"
proof -
  from assms(2,3)
  have "narrow W station_id sensor_num dur_code (year_of earliest_found) earliest_found tr0 = (Inr d, tr)"
    by (simp add: find_earliest_date_def)
  from narrow_last[OF assms(1) this _ assms(4)] show ?thesis by simp
qed

theorem find_earliest_date_previous_year_empty_witness:
  "answers_within (dataset_world since_2008) ''LCH'' 1 ''E''
   \<and> probe (dataset_world since_2008) ''LCH'' 1 ''E'' probe_years []
       = (Inr (Some (ymd 2010 3 15)), map year_window probe_years)
   \<and> find_earliest_date (dataset_world since_2008) ''LCH'' 1 ''E'' (ymd 2024 1 1)
       = (Inr (ymd 2008 11 20), map year_window probe_years @ map year_window [2009, 2008, 2007])
   \<and> 1900 < year_of (ymd 2008 11 20)
   \<and> last (map year_window probe_years @ map year_window [2009, 2008, 2007]) = year_window 2007
   \<and> fetch_cdec (dataset_world since_2008) ''LCH'' 1 ''E'' (ymd 2007 1 1) (ymd 2007 12 31) = Inr []"
proof -
  have w: "answers_within (dataset_world since_2008) ''LCH'' 1 ''E''"
    by (rule answers_exactly_within) (rule dataset_world_exactly)
  have y: "1900 < year_of (ymd 2008 11 20)" by (simp add: year_of_found)
  note t = find_earliest_date_previous_year_empty[OF w since_2008_probe since_2008_find y]
  from t have "last (map year_window probe_years @ map year_window [2009, 2008, 2007]) = year_window 2007"
    "fetch_cdec (dataset_world since_2008) ''LCH'' 1 ''E'' (ymd 2007 1 1) (ymd 2007 12 31) = Inr []"
    by (simp_all add: year_of_found)
  with w since_2008_probe since_2008_find y show ?thesis by (intro conjI)
qed

theorem stray_reading_breaks_year_minimality:
  "probe stray_world ''LCH'' 1 ''E'' probe_years [] = (Inr (Some (ymd 1950 6 1)), [year_window 1900])
   \<and> find_earliest_date stray_world ''LCH'' 1 ''E'' (ymd 2024 1 1)
       = (Inr (ymd 1960 3 1), [year_window 1900, year_window 1949, year_window 1948])
   \<and> year_of (ymd 1960 3 1) = 1960
   \<and> last [year_window 1900, year_window 1949, year_window 1948] \<noteq> year_window (1960 - 1)"
  using stray_probe stray_find stray_year by simp

section \<open>Collecting a range in one call or in two\<close>





















section \<open>Reversed ranges and negative chunk sizes\<close>

lemma chunk_loop_stuck:
  assumes "chunk_loop W st sn dc e c cur frames tr = Some res"
  shows "c = - 1 \<longrightarrow> cur \<le> e \<longrightarrow> date_min < cur \<longrightarrow> cur \<le> date_max \<longrightarrow>
         (\<forall>s t. \<exists>df. fetch_cdec W st sn dc s t = Inr df) \<longrightarrow> False"
  using assms
proof (induction W st sn dc e c cur frames tr res rule: chunk_loop.raw_induct[rotated, consumes 1])
  case (1 chunk_loop W st sn dc e c cur frames tr res)
  show ?case
  proof (intro impI)
    assume c: "c = - 1" and le: "cur \<le> e" and lo: "date_min < cur" and hi: "cur \<le> date_max"
      and ok: "\<forall>s t. \<exists>df. fetch_cdec W st sn dc s t = Inr df"
    have a: "date_add cur c = Inr (cur - 1)"
      using c lo hi by (simp add: date_add_def)
    have m: "min (cur - 1) e = cur - 1" using le by simp
    from ok obtain df where df: "fetch_cdec W st sn dc cur (cur - 1) = Inr df" by blast
    have b: "date_add (cur - 1) 1 = Inr cur"
      using lo hi by (simp add: date_add_def)
    from 1(2) le a m df b
    have "chunk_loop W st sn dc e c cur (frames @ [df]) (tr @ [(cur, cur - 1)]) = Some res"
      by (simp add: Let_def)
    from 1(1)[OF this] c le lo hi ok show False by blast
  qed
qed

lemma fetch_all_in_chunks_stuck:
  assumes "s \<le> e" "date_min < s" "s \<le> date_max"
    and "\<forall>s t. \<exists>df. fetch_cdec W st sn dc s t = Inr df"
  shows "fetch_all_in_chunks W st sn dc s e (- 1) = None"
proof (cases "chunk_loop W st sn dc e (- 1) s [] []")
  case None
  then show ?thesis by (simp add: fetch_all_in_chunks_def)
next
  case (Some res)
  from chunk_loop_stuck[OF Some] assms show ?thesis by blast
qed

lemma lch_2020_stuck_dates:
  "ymd 2020 1 1 \<le> ymd 2020 3 1 \<and> date_min < ymd 2020 1 1 \<and> ymd 2020 1 1 \<le> date_max"
  by code_simp

lemma lch_2020_stuck:
  "fetch_all_in_chunks (dataset_world lch_2020) ''LCH'' 1 ''E'' (ymd 2020 1 1) (ymd 2020 3 1) (- 1)
     = None"
  using lch_2020_stuck_dates dataset_world_answers
  by (intro fetch_all_in_chunks_stuck) simp_all

text \<open>
  C6, as amended. When the start date is after the end date, \<open>fetch_all_in_chunks\<close> returns
  the empty Series and fetches no window, whatever \<open>chunk_days\<close> is, a negative one
  included: \<open>chunk_days\<close> is not validated and the code has no validation error. The claim
  as stated fails twice: with \<open>chunk_days = -1\<close> on an ordinary range the call never
  returns, and with \<open>chunk_days = -5\<close> on a reversed range it succeeds.
\<close>

theorem fetch_all_in_chunks_empty_range:
  assumes "end_date < start_date"
  shows "fetch_all_in_chunks W station_id sensor_num dur_code start_date end_date chunk_days
           = Some (Inr [], [])"
  using assms by (rule reversed_range)

theorem fetch_all_in_chunks_empty_range_witness:
  "ymd 2020 1 1 < ymd 2020 3 1 \<and>
   fetch_all_in_chunks (dataset_world lch_2020) ''LCH'' 1 ''E'' (ymd 2020 3 1) (ymd 2020 1 1) 365
     = Some (Inr [], [])"
proof -
  have h: "ymd 2020 1 1 < ymd 2020 3 1" by code_simp
  from fetch_all_in_chunks_empty_range[OF h] h show ?thesis by simp
qed

theorem negative_chunk_days_not_rejected:
  "fetch_all_in_chunks (dataset_world lch_2020) ''LCH'' 1 ''E'' (ymd 2020 1 1) (ymd 2020 3 1) (- 1)
     = None
   \<and> fetch_all_in_chunks (dataset_world lch_2020) ''LCH'' 1 ''E'' (ymd 2020 3 1) (ymd 2020 1 1) (- 5)
     = Some (Inr [], [])"
proof -
  have "fetch_all_in_chunks (dataset_world lch_2020) ''LCH'' 1 ''E'' (ymd 2020 3 1) (ymd 2020 1 1) (- 5)
     = Some (Inr [], [])"
    by code_simp
  with lch_2020_stuck show ?thesis by (intro conjI)
qed

section \<open>Combining stage and flow: the outer join\<close>

lemma filter_key_distinct:
  "distinct (map fst xs) \<Longrightarrow>
   map snd (filter (\<lambda>r. fst r = t) xs) = (case map_of xs t of None \<Rightarrow> [] | Some v \<Rightarrow> [v])"
proof (induction xs)
  case Nil
  show ?case by simp
next
  case (Cons r xs)
  show ?case
  proof (cases "fst r = t")
    case True
    with Cons(2) have "t \<notin> fst ` set xs" by auto
    then have "filter (\<lambda>r. fst r = t) xs = []" by (auto simp: filter_empty_conv)
    with True show ?thesis by (cases r) simp
  next
    case False
    with Cons show ?thesis by (cases r) auto
  qed
qed

lemma merge_outer_distinct:
  assumes "distinct (map fst stage)" "distinct (map fst flow)"
  shows "merge_outer stage flow
           = map (\<lambda>t. (t, map_of stage t, map_of flow t))
               (sorted_list_of_set (fst ` set stage \<union> fst ` set flow))"
proof -
  let ?K = "sort (remdups (map fst stage @ map fst flow))"
  have K: "?K = sorted_list_of_set (fst ` set stage \<union> fst ` set flow)"
    using sorted_list_of_set_sort_remdups[of "map fst stage @ map fst flow"] by simp
  have row: "(let ls = map snd (filter (\<lambda>r. fst r = t) stage);
                  rs = map snd (filter (\<lambda>r. fst r = t) flow)
              in if rs = [] then map (\<lambda>l. (t, Some l, None)) ls
                 else if ls = [] then map (\<lambda>r. (t, None, Some r)) rs
                 else concat (map (\<lambda>l. map (\<lambda>r. (t, Some l, Some r)) rs) ls))
             = [(t, map_of stage t, map_of flow t)]"
    if "t \<in> set ?K" for t
  proof -
    from that have "t \<in> fst ` set stage \<or> t \<in> fst ` set flow" by auto
    then have "map_of stage t \<noteq> None \<or> map_of flow t \<noteq> None"
      by (simp add: map_of_eq_None_iff)
    then show ?thesis
      unfolding Let_def filter_key_distinct[OF assms(1)] filter_key_distinct[OF assms(2)]
      by (auto split: option.splits)
  qed
  have "merge_outer stage flow = concat (map (\<lambda>t. [(t, map_of stage t, map_of flow t)]) ?K)"
    unfolding merge_outer_def using row by (intro arg_cong[where f = concat] map_cong) simp_all
  also have "\<dots> = map (\<lambda>t. (t, map_of stage t, map_of flow t)) ?K"
    by (induction ?K) simp_all
  finally show ?thesis unfolding K .
qed

lemma combine_same_dtype:
  assumes "distinct (map fst stage)" "distinct (map fst flow)"
  shows "combine W dt stage dt flow
           = Inr (map (\<lambda>t. (t, map_of stage t, map_of flow t))
                    (sorted_list_of_set (fst ` set stage \<union> fst ` set flow)))"
proof -
  let ?rows = "map (\<lambda>t. (t, map_of stage t, map_of flow t))
               (sorted_list_of_set (fst ` set stage \<union> fst ` set flow))"
  have "map fst ?rows = sorted_list_of_set (fst ` set stage \<union> fst ` set flow)"
    by (simp add: comp_def)
  then have "sorted_wrt (<) (map fst ?rows)" by simp
  then have "sort_values W ?rows = ?rows" by (rule sort_values_strict)
  then show ?thesis
    unfolding combine_def merge_outer_distinct[OF assms] by simp
qed

lemma combine_keys:
  assumes "distinct (map fst stage)" "distinct (map fst flow)"
    and "combine W dt stage dt' flow = Inr rows"
  shows "map fst rows = sorted_list_of_set (fst ` set stage \<union> fst ` set flow)"
proof -
  from assms(3) have "dt = dt'" by (auto simp: combine_def split: if_splits)
  with assms(3) combine_same_dtype[OF assms(1,2), of W dt] show ?thesis
    by (auto simp: comp_def)
qed

lemma combine_scenario_d:
  fixes t1 t2 :: timestamp
  assumes "t1 \<noteq> t2"
  shows "combine W dt [(t1, 5)] dt [(t2, 100)]
           = Inr (if t1 < t2 then [(t1, Some 5, None), (t2, None, Some 100)]
                  else [(t2, None, Some 100), (t1, Some 5, None)])"
proof -
  have "sorted_list_of_set {t1, t2} = (if t1 < t2 then [t1, t2] else [t2, t1])"
    using assms by (auto simp: insort_is_Cons not_less)
  then show ?thesis
    using assms combine_same_dtype[of "[(t1, 5)]" "[(t2, 100)]" W dt] by (auto simp: insert_commute)
qed

lemma combine_raises:
  "stage_dtype \<noteq> flow_dtype \<Longrightarrow> combine W stage_dtype stage flow_dtype flow = Inl ValueError"
  by (simp add: combine_def)

lemma collected_dtype_Object:
  "collected_dtype W st sn dc tr = Object \<longleftrightarrow>
     tr = [] \<or> (\<exists>w \<in> set tr. urlopen_json W st sn dc (fst w) (snd w) = Inr [])"
  by (auto simp: collected_dtype_def list_ex_iff)

subsection \<open>A station whose stage record has a gap\<close>

lemma stage_gap_earliest_stage:
  "find_earliest_date stage_gap_world ''LCH'' 1 ''E'' (ymd 2011 12 31)
     = (Inr (ymd 2010 3 15), map year_window probe_years @ [year_window 2009])"
  by code_simp

lemma stage_gap_earliest_flow:
  "find_earliest_date stage_gap_world ''LCH'' 20 ''E'' (ymd 2011 12 31)
     = (Inr (ymd 2010 5 1), map year_window probe_years @ [year_window 2009])"
  by code_simp

lemma stage_gap_stage:
  "fetch_all_in_chunks stage_gap_world ''LCH'' 1 ''E'' (ymd 2010 3 15) (ymd 2011 12 31) 365
     = Some (Inr [(ts_at (ymd 2010 3 15) 0, 5)],
             [(ymd 2010 3 15, ymd 2011 3 15), (ymd 2011 3 16, ymd 2011 12 31)])"
  by code_simp

lemma stage_gap_flow:
  "fetch_all_in_chunks stage_gap_world ''LCH'' 20 ''E'' (ymd 2010 3 15) (ymd 2011 12 31) 365
     = Some (Inr [(ts_at (ymd 2010 5 1) 0, 100), (ts_at (ymd 2011 8 1) 0, 120)],
             [(ymd 2010 3 15, ymd 2011 3 15), (ymd 2011 3 16, ymd 2011 12 31)])"
  by code_simp

lemma stage_gap_empty_window:
  "urlopen_json stage_gap_world ''LCH'' 1 ''E'' (ymd 2011 3 16) (ymd 2011 12 31) = Inr []"
  by code_simp

lemma stage_gap_dtypes:
  "collected_dtype stage_gap_world ''LCH'' 1 ''E''
       [(ymd 2010 3 15, ymd 2011 3 15), (ymd 2011 3 16, ymd 2011 12 31)] = Object
   \<and> collected_dtype stage_gap_world ''LCH'' 20 ''E''
       [(ymd 2010 3 15, ymd 2011 3 15), (ymd 2011 3 16, ymd 2011 12 31)] = Datetime64"
  by code_simp

lemma stage_gap_export:
  "export_station_all_time stage_gap_world ''LCH'' (ymd 2011 12 31) = Some (Inl ValueError)"
  by code_simp

lemma stage_gap_join:
  "merge_outer [(ts_at (ymd 2010 3 15) 0, 5)]
               [(ts_at (ymd 2010 5 1) 0, 100), (ts_at (ymd 2011 8 1) 0, 120)]
     = [(ts_at (ymd 2010 3 15) 0, Some 5, None),
        (ts_at (ymd 2010 5 1) 0, None, Some 100),
        (ts_at (ymd 2011 8 1) 0, None, Some 120)]"
  by code_simp

text \<open>
  C8. The join of stage and flow is not reached for every station. At a station whose stage
  sensor has readings in 2010 only and whose flow sensor has readings in 2010 and 2011,
  exported on 2011-12-31, both collections return a Series with one reading per timestamp,
  over the same two windows. The second window of stage is empty, so the \<open>datetime\<close> column
  of the stage frame is of dtype object, while that of the flow frame is \<open>datetime64\<close>, and
  \<open>export_station_all_time\<close> ends in the \<open>ValueError\<close> of \<^verbatim>\<open>pd.merge\<close>: no row is produced,
  where a full outer join has the three rows of the three timestamps.
\<close>

theorem export_station_all_time_raises:
  "fetch_all_in_chunks stage_gap_world ''LCH'' 1 ''E'' (ymd 2010 3 15) (ymd 2011 12 31) 365
     = Some (Inr [(ts_at (ymd 2010 3 15) 0, 5)],
             [(ymd 2010 3 15, ymd 2011 3 15), (ymd 2011 3 16, ymd 2011 12 31)])
   \<and> fetch_all_in_chunks stage_gap_world ''LCH'' 20 ''E'' (ymd 2010 3 15) (ymd 2011 12 31) 365
     = Some (Inr [(ts_at (ymd 2010 5 1) 0, 100), (ts_at (ymd 2011 8 1) 0, 120)],
             [(ymd 2010 3 15, ymd 2011 3 15), (ymd 2011 3 16, ymd 2011 12 31)])
   \<and> urlopen_json stage_gap_world ''LCH'' 1 ''E'' (ymd 2011 3 16) (ymd 2011 12 31) = Inr []
   \<and> export_station_all_time stage_gap_world ''LCH'' (ymd 2011 12 31) = Some (Inl ValueError)
   \<and> merge_outer [(ts_at (ymd 2010 3 15) 0, 5)]
                 [(ts_at (ymd 2010 5 1) 0, 100), (ts_at (ymd 2011 8 1) 0, 120)]
     = [(ts_at (ymd 2010 3 15) 0, Some 5, None),
        (ts_at (ymd 2010 5 1) 0, None, Some 100),
        (ts_at (ymd 2011 8 1) 0, None, Some 120)]"
  using stage_gap_stage stage_gap_flow stage_gap_empty_window stage_gap_export stage_gap_join
  by (intro conjI)

end
